theory Spec2Isabelle
  imports Complex_Main
begin

section \<open>Data model (types.ts)\<close>

text \<open>
  The category tag of a format descriptor: the string union
  \<^verbatim>\<open>'image' | 'video' | 'audio' | 'document' | 'archive' | 'other'\<close>.
\<close>

datatype Category = Image | Video | Audio | Document | Archive | Other

text \<open>
  \<^verbatim>\<open>interface FileFormat\<close>. The fields \<^verbatim>\<open>from\<close> and \<^verbatim>\<open>to\<close> carry a prime because
  the bare words are reserved.
\<close>

record FileFormat =
  name :: string
  format :: string
  extension :: string
  mime :: string
  from' :: bool
  to' :: bool
  internal :: string
  category :: Category

text \<open>\<^verbatim>\<open>interface FileData\<close>: a file name and its bytes.\<close>

record FileData =
  fd_name :: string
  bytes :: "nat list"

text \<open>
  The browser's \<^verbatim>\<open>File\<close> objects handed to \<^verbatim>\<open>convert\<close>: a name and the bytes that
  \<^verbatim>\<open>arrayBuffer()\<close> resolves to.
\<close>

record File =
  file_name :: string
  file_bytes :: "nat list"

text \<open>
  A value thrown by a handler. The executor reads it as
  \<^verbatim>\<open>e instanceof Error ? e.message : String(e)\<close>.
\<close>

datatype js_exn = Error string | Thrown string

fun exn_message :: "js_exn \<Rightarrow> string" where
  "exn_message (Error m) = m"
| "exn_message (Thrown s) = s"

text \<open>
  \<^verbatim>\<open>interface FormatHandler\<close>, an instance: its name, the optional list of declared
  formats, the ready flag, and \<^verbatim>\<open>doConvert\<close> as a black box that either throws or
  returns the output files. The declared formats and the ready flag are read as
  \<^verbatim>\<open>init\<close> left them; a \<^verbatim>\<open>doConvert\<close> that changed them later is outside the model.
\<close>

record FormatHandler =
  h_name :: string
  supportedFormats :: "FileFormat list option"
  ready :: bool
  doConvert :: "FileData list \<Rightarrow> FileFormat \<Rightarrow> FileFormat \<Rightarrow> js_exn + FileData list"

text \<open>
  An entry of \<^verbatim>\<open>handlerClasses\<close>: the instance \<^verbatim>\<open>new HandlerClass()\<close> builds and the
  outcome of \<^verbatim>\<open>await handler.init()\<close> on it, which throws or leaves the (mutated)
  instance.
\<close>

record HandlerClass =
  construct :: FormatHandler
  init :: "FormatHandler \<Rightarrow> js_exn + FormatHandler"

datatype Stage = Initializing | Converting | Complete | ErrorStage

record ConversionProgress =
  stage :: Stage
  progress :: int
  message :: string

record ConversionResult =
  success :: bool
  r_message :: string
  path :: "string list option"
  files :: "FileData list option"

text \<open>One step of a \<^verbatim>\<open>ConversionPath\<close>, and the path itself.\<close>

record Step =
  handler :: FormatHandler
  inputFormat :: FileFormat
  outputFormat :: FileFormat

record ConversionPath =
  steps :: "Step list"

text \<open>An entry of the breadth-first queue: \<^verbatim>\<open>{ format, path }\<close>.\<close>

record QItem =
  q_format :: FileFormat
  q_path :: "Step list"

section \<open>Pathfinder (converter.ts)\<close>

text \<open>
  The test both \<^verbatim>\<open>findHandler\<close> and the search loops apply to a handler:
  \<^verbatim>\<open>handler.supportedFormats.some((f) => f.mime === m && f.from)\<close>, and the same with
  \<^verbatim>\<open>f.to\<close>.
\<close>

definition canInput :: "FileFormat list \<Rightarrow> string \<Rightarrow> bool" where
  "canInput fs m = list_ex (\<lambda>f. mime f = m \<and> from' f) fs"

definition canOutput :: "FileFormat list \<Rightarrow> string \<Rightarrow> bool" where
  "canOutput fs m = list_ex (\<lambda>f. mime f = m \<and> to' f) fs"

text \<open>The predicate of \<^verbatim>\<open>handlers.find\<close> in \<^verbatim>\<open>findHandler\<close>.\<close>

definition handles :: "FileFormat \<Rightarrow> FileFormat \<Rightarrow> FormatHandler \<Rightarrow> bool" where
  "handles inputFmt outputFmt h =
     (case supportedFormats h of
        None \<Rightarrow> False
      | Some fs \<Rightarrow>
          if \<not> ready h then False
          else canInput fs (mime inputFmt) \<and> canOutput fs (mime outputFmt))"

definition findHandler ::
  "FormatHandler list \<Rightarrow> FileFormat \<Rightarrow> FileFormat \<Rightarrow> FormatHandler option" where
  "findHandler handlers inputFmt outputFmt = find (handles inputFmt outputFmt) handlers"

text \<open>
  The inner loop \<^verbatim>\<open>for (const format of handler.supportedFormats)\<close> of both expansions,
  threading the visited set and the queue. \<open>skipSelf\<close> is true for the expansion of the
  input format, whose guard also skips \<^verbatim>\<open>format.mime === inputFormat.mime\<close>; the
  expansion inside the while loop has no such test.
\<close>

fun scanFormats ::
  "bool \<Rightarrow> FormatHandler \<Rightarrow> FileFormat \<Rightarrow> Step list \<Rightarrow> FileFormat list \<Rightarrow>
   string set \<times> QItem list \<Rightarrow> string set \<times> QItem list" where
  "scanFormats skipSelf h cur pth [] (visited, queue) = (visited, queue)"
| "scanFormats skipSelf h cur pth (f # fs) (visited, queue) =
     (if \<not> to' f \<or> (skipSelf \<and> mime f = mime cur) then
        scanFormats skipSelf h cur pth fs (visited, queue)
      else if mime f \<in> visited then
        scanFormats skipSelf h cur pth fs (visited, queue)
      else
        scanFormats skipSelf h cur pth fs
          (insert (mime f) visited,
           queue @ [\<lparr>q_format = f,
                     q_path = pth @ [\<lparr>handler = h, inputFormat = cur, outputFormat = f\<rparr>]\<rparr>]))"

text \<open>The outer loop \<^verbatim>\<open>for (const handler of handlers)\<close> of both expansions.\<close>

fun scanHandlers ::
  "bool \<Rightarrow> FileFormat \<Rightarrow> Step list \<Rightarrow> FormatHandler list \<Rightarrow>
   string set \<times> QItem list \<Rightarrow> string set \<times> QItem list" where
  "scanHandlers skipSelf cur pth [] s = s"
| "scanHandlers skipSelf cur pth (h # hs) s =
     (case supportedFormats h of
        None \<Rightarrow> scanHandlers skipSelf cur pth hs s
      | Some fs \<Rightarrow>
          if \<not> ready h then scanHandlers skipSelf cur pth hs s
          else if \<not> canInput fs (mime cur) then scanHandlers skipSelf cur pth hs s
          else scanHandlers skipSelf cur pth hs (scanFormats skipSelf h cur pth fs s))"

text \<open>
  The loop \<^verbatim>\<open>while (queue.length > 0)\<close>. The outer \<open>None\<close> stands for a loop that never
  returns; \<open>Some None\<close> is the \<^verbatim>\<open>return null\<close> after the loop.
\<close>

partial_function (option) bfsLoop ::
  "FormatHandler list \<Rightarrow> FileFormat \<Rightarrow> int \<Rightarrow> string set \<times> QItem list \<Rightarrow>
   ConversionPath option option" where
  "bfsLoop handlers outputFmt maxDepth s =
     (case snd s of
        [] \<Rightarrow> Some None
      | current # rest \<Rightarrow>
          if int (length (q_path current)) \<ge> maxDepth then
            bfsLoop handlers outputFmt maxDepth (fst s, rest)
          else
            (case findHandler handlers (q_format current) outputFmt of
               Some handlerToOutput \<Rightarrow>
                 Some (Some \<lparr>steps = q_path current @
                   [\<lparr>handler = handlerToOutput, inputFormat = q_format current,
                     outputFormat = outputFmt\<rparr>]\<rparr>)
             | None \<Rightarrow>
                 bfsLoop handlers outputFmt maxDepth
                   (scanHandlers False (q_format current) (q_path current) handlers
                      (fst s, rest))))"

declare bfsLoop.simps [code]

definition findConversionPath ::
  "FormatHandler list \<Rightarrow> FileFormat \<Rightarrow> FileFormat \<Rightarrow> int \<Rightarrow> ConversionPath option option" where
  "findConversionPath handlers inputFmt outputFmt maxDepth =
     (case findHandler handlers inputFmt outputFmt of
        Some directHandler \<Rightarrow>
          Some (Some \<lparr>steps = [\<lparr>handler = directHandler, inputFormat = inputFmt,
                                outputFormat = outputFmt\<rparr>]\<rparr>)
      | None \<Rightarrow>
          if maxDepth \<le> 1 then Some None
          else bfsLoop handlers outputFmt maxDepth
                 (scanHandlers True inputFmt [] handlers ({}, [])))"

section \<open>Helpers for strings and numbers\<close>

text \<open>
  \<^verbatim>\<open>String.prototype.toUpperCase\<close> on the ASCII letters; every other character is left
  as it is.
\<close>

definition upperChar :: "char \<Rightarrow> char" where
  "upperChar c =
     (let n = (of_char c :: nat) in if 97 \<le> n \<and> n \<le> 122 then char_of (n - 32) else c)"

definition toUpperCase :: "string \<Rightarrow> string" where
  "toUpperCase s = map upperChar s"

text \<open>The decimal text of a non-negative integer, as a template literal prints it.\<close>

fun showNat :: "nat \<Rightarrow> string" where
  "showNat n =
     (if n < 10 then [char_of (48 + n)]
      else showNat (n div 10) @ [char_of (48 + n mod 10)])"

declare showNat.simps [simp del]

text \<open>
  \<^verbatim>\<open>Math.round\<close>: the nearest integer, a tie going up. The argument is taken as an exact
  rational.
\<close>

definition Math_round :: "rat \<Rightarrow> int" where
  "Math_round x = \<lfloor>x + 1 / 2\<rfloor>"

text \<open>\<^verbatim>\<open>Array.prototype.join\<close>.\<close>

fun join :: "string \<Rightarrow> string list \<Rightarrow> string" where
  "join sep [] = []"
| "join sep [x] = x"
| "join sep (x # y # ys) = x @ sep @ join sep (y # ys)"

text \<open>The separator \<^verbatim>\<open>' -> '\<close> of the route message, its arrow in UTF-8.\<close>

definition arrowSep :: string where
  "arrowSep = [CHR '' '', CHR 0xE2, CHR 0x86, CHR 0x92, CHR '' '']"

section \<open>Handler registry and format catalog (converter.ts)\<close>

text \<open>
  What the engine does to its collaborators, in order: a call of the progress callback,
  of a handler's \<^verbatim>\<open>init\<close>, or of a handler's \<^verbatim>\<open>doConvert\<close>.
\<close>

datatype Effect =
  Progress ConversionProgress
| InitCall string
| DoConvertCall string "FileData list" FileFormat FileFormat

text \<open>The module state: \<^verbatim>\<open>handlers\<close>, \<^verbatim>\<open>allFormats\<close>, \<^verbatim>\<open>initialized\<close>.\<close>

record ConverterState =
  handlers :: "FormatHandler list"
  allFormats :: "FileFormat list"
  initialized :: bool

definition initialState :: ConverterState where
  "initialState = \<lparr>handlers = [], allFormats = [], initialized = False\<rparr>"

text \<open>
  The loop over one handler's \<^verbatim>\<open>supportedFormats\<close> that pushes a format unless the
  catalog already has its (mime, format) pair. The pushed copy
  \<^verbatim>\<open>{...format, category: format.category || getCategoryFromMime(format.mime)}\<close> is the
  format itself: each of the six category strings is truthy.
\<close>

fun collectFormats :: "FileFormat list \<Rightarrow> FileFormat list \<Rightarrow> FileFormat list" where
  "collectFormats [] catalog = catalog"
| "collectFormats (fmt # fmts) catalog =
     (if list_ex (\<lambda>f. mime f = mime fmt \<and> format f = format fmt) catalog
      then collectFormats fmts catalog
      else collectFormats fmts (catalog @ [fmt]))"

text \<open>
  The loop \<^verbatim>\<open>for (let i = 0; i < handlerClasses.length; i++)\<close> with its try/catch;
  \<open>n\<close> is \<^verbatim>\<open>handlerClasses.length\<close>.
\<close>

fun initLoop ::
  "nat \<Rightarrow> nat \<Rightarrow> HandlerClass list \<Rightarrow> FormatHandler list \<times> FileFormat list \<Rightarrow>
   (FormatHandler list \<times> FileFormat list) \<times> Effect list" where
  "initLoop n i [] s = (s, [])"
| "initLoop n i (hc # hcs) s =
     (let h = construct hc;
          ev = Progress \<lparr>stage = Initializing,
                 progress = Math_round ((of_nat i + 1 / 2) / of_nat n * 100),
                 message = ''Initializing '' @ h_name h @ ''...''\<rparr>
      in case init hc h of
           Inl e \<Rightarrow>
             (case initLoop n (i + 1) hcs s of
                (s', t) \<Rightarrow> (s', ev # InitCall (h_name h) # t))
         | Inr h' \<Rightarrow>
             (let catalog' =
                    (case supportedFormats h' of
                       None \<Rightarrow> snd s
                     | Some fmts \<Rightarrow> collectFormats fmts (snd s))
              in case initLoop n (i + 1) hcs (fst s @ [h'], catalog') of
                   (s', t) \<Rightarrow> (s', ev # InitCall (h_name h) # t)))"

text \<open>\<^verbatim>\<open>order.indexOf(category)\<close> in the sort's comparator.\<close>

fun categoryIndex :: "Category \<Rightarrow> int" where
  "categoryIndex Image = 0"
| "categoryIndex Video = 1"
| "categoryIndex Audio = 2"
| "categoryIndex Document = 3"
| "categoryIndex Archive = 4"
| "categoryIndex Other = 5"

text \<open>
  The comparator given to \<^verbatim>\<open>allFormats.sort\<close>. \<^verbatim>\<open>String.prototype.localeCompare\<close>
  belongs to the platform and is a parameter.
\<close>

definition compareFormats :: "(string \<Rightarrow> string \<Rightarrow> int) \<Rightarrow> FileFormat \<Rightarrow> FileFormat \<Rightarrow> int" where
  "compareFormats localeCompare a b =
     (if category a \<noteq> category b then categoryIndex (category a) - categoryIndex (category b)
      else localeCompare (name a) (name b))"

text \<open>
  \<^verbatim>\<open>Array.prototype.sort\<close> is a stable sort; it is written here as the stable insertion
  sort, an element going in front of the first one it does not compare greater than.
\<close>

fun insertBy :: "('a \<Rightarrow> 'a \<Rightarrow> int) \<Rightarrow> 'a \<Rightarrow> 'a list \<Rightarrow> 'a list" where
  "insertBy cmp x [] = [x]"
| "insertBy cmp x (y # ys) = (if cmp x y \<le> 0 then x # y # ys else y # insertBy cmp x ys)"

definition sortBy :: "('a \<Rightarrow> 'a \<Rightarrow> int) \<Rightarrow> 'a list \<Rightarrow> 'a list" where
  "sortBy cmp xs = foldr (insertBy cmp) xs []"

text \<open>
  \<^verbatim>\<open>initializeConverter\<close>: the new state, the returned catalog and the effects.
\<close>

definition initializeConverter ::
  "(string \<Rightarrow> string \<Rightarrow> int) \<Rightarrow> HandlerClass list \<Rightarrow> ConverterState \<Rightarrow>
   ConverterState \<times> FileFormat list \<times> Effect list" where
  "initializeConverter localeCompare handlerClasses st =
     (if initialized st \<and> length (allFormats st) > 0 then (st, allFormats st, [])
      else
        (case initLoop (length handlerClasses) 0 handlerClasses ([], []) of
           ((hs, catalog), t) \<Rightarrow>
             (let sorted = sortBy (compareFormats localeCompare) catalog
              in (\<lparr>handlers = hs, allFormats = sorted, initialized = True\<rparr>,
                  sorted,
                  [Progress \<lparr>stage = Initializing, progress = 0,
                              message = ''Loading conversion tools...''\<rparr>] @ t @
                  [Progress \<lparr>stage = Initializing, progress = 100,
                              message = ''Loaded '' @ showNat (length sorted) @ '' formats''\<rparr>]))))"

definition getFormats :: "ConverterState \<Rightarrow> FileFormat list" where
  "getFormats st = allFormats st"

definition getInputFormats :: "ConverterState \<Rightarrow> FileFormat list" where
  "getInputFormats st = filter from' (allFormats st)"

definition getOutputFormats :: "ConverterState \<Rightarrow> FileFormat list" where
  "getOutputFormats st = filter to' (allFormats st)"

text \<open>\<^verbatim>\<open>normalizeMimeType\<close> (utils.ts).\<close>

definition normalizeMimeType :: "string \<Rightarrow> string" where
  "normalizeMimeType m =
     (if m = ''audio/x-wav'' then ''audio/wav''
      else if m = ''audio/vnd.wave'' then ''audio/wav''
      else if m = ''image/x-icon'' then ''image/vnd.microsoft.icon''
      else if m = ''image/qoi'' then ''image/x-qoi''
      else if m = ''video/bink'' then ''video/vnd.radgamettools.bink''
      else if m = ''video/binka'' then ''audio/vnd.radgamettools.bink''
      else m)"

definition findFormatByMime :: "ConverterState \<Rightarrow> string \<Rightarrow> FileFormat option" where
  "findFormatByMime st m = find (\<lambda>f. mime f = normalizeMimeType m) (allFormats st)"

section \<open>Executor (converter.ts)\<close>

text \<open>Reading the input files: \<^verbatim>\<open>{ name: file.name, bytes: new Uint8Array(buffer) }\<close>.\<close>

definition loadFiles :: "File list \<Rightarrow> FileData list" where
  "loadFiles fs = map (\<lambda>f. \<lparr>fd_name = file_name f, bytes = file_bytes f\<rparr>) fs"

text \<open>
  The two \<^verbatim>\<open>supportedFormats?.find\<close> of a step; \<open>None\<close> where the executor throws
  \<^verbatim>\<open>Error('Format not supported by handler')\<close>.
\<close>

definition resolveFormats :: "Step \<Rightarrow> (FileFormat \<times> FileFormat) option" where
  "resolveFormats step =
     (let handlerInputFormat =
            (case supportedFormats (handler step) of
               None \<Rightarrow> None
             | Some fs \<Rightarrow> find (\<lambda>f. mime f = mime (inputFormat step) \<and> from' f) fs);
          handlerOutputFormat =
            (case supportedFormats (handler step) of
               None \<Rightarrow> None
             | Some fs \<Rightarrow> find (\<lambda>f. mime f = mime (outputFormat step) \<and> to' f) fs)
      in case handlerInputFormat of
           None \<Rightarrow> None
         | Some a \<Rightarrow> (case handlerOutputFormat of None \<Rightarrow> None | Some b \<Rightarrow> Some (a, b)))"

text \<open>The result built in the \<^verbatim>\<open>catch\<close> of step \<open>i\<close> (counted from 0).\<close>

definition stepFailure :: "nat \<Rightarrow> js_exn \<Rightarrow> string list \<Rightarrow> ConversionResult" where
  "stepFailure i e pathFormats =
     \<lparr>success = False,
      r_message = ''Conversion failed at step '' @ showNat (i + 1) @ '': '' @ exn_message e,
      path = Some pathFormats,
      files = None\<rparr>"

text \<open>
  The loop \<^verbatim>\<open>for (let i = 0; i < path.steps.length; i++)\<close>; \<open>n\<close> is
  \<^verbatim>\<open>path.steps.length\<close>. It ends with the failure result of the step that threw, or
  with the last files and the labels of all steps.
\<close>

fun executeSteps ::
  "nat \<Rightarrow> nat \<Rightarrow> Step list \<Rightarrow> FileData list \<Rightarrow> string list \<Rightarrow>
   (ConversionResult + FileData list \<times> string list) \<times> Effect list" where
  "executeSteps n i [] currentFiles pathFormats = (Inr (currentFiles, pathFormats), [])"
| "executeSteps n i (step # rest) currentFiles pathFormats =
     (let ev = Progress \<lparr>stage = Converting,
                 progress = 10 + Math_round (of_nat (i + 1) / of_nat n * 80),
                 message = ''Converting to '' @ toUpperCase (format (outputFormat step)) @ ''...''\<rparr>
      in case resolveFormats step of
           None \<Rightarrow>
             (Inl (stepFailure i (Error ''Format not supported by handler'') pathFormats), [ev])
         | Some (handlerInputFormat, handlerOutputFormat) \<Rightarrow>
             (let call = DoConvertCall (h_name (handler step)) currentFiles
                           handlerInputFormat handlerOutputFormat
              in case doConvert (handler step) currentFiles handlerInputFormat handlerOutputFormat of
                   Inl e \<Rightarrow> (Inl (stepFailure i e pathFormats), [ev, call])
                 | Inr out \<Rightarrow>
                     (case executeSteps n (i + 1) rest out
                             (pathFormats @ [toUpperCase (format (outputFormat step))]) of
                        (r, t) \<Rightarrow> (r, ev # call # t))))"

text \<open>
  The first statement of \<^verbatim>\<open>convert\<close>:
  \<^verbatim>\<open>if (!initialized) { await initializeConverter(onProgress); }\<close>, giving the state
  the rest of \<^verbatim>\<open>convert\<close> runs in and the effects so far.
\<close>

definition ensureInitialized ::
  "(string \<Rightarrow> string \<Rightarrow> int) \<Rightarrow> HandlerClass list \<Rightarrow> ConverterState \<Rightarrow>
   ConverterState \<times> Effect list" where
  "ensureInitialized localeCompare handlerClasses st =
     (if \<not> initialized st
      then (case initializeConverter localeCompare handlerClasses st of
              (st', _, t) \<Rightarrow> (st', t))
      else (st, []))"

text \<open>
  \<^verbatim>\<open>convert\<close>: the new state, the result and the effects; \<open>None\<close> only if the search
  for a route never returned.
\<close>

definition convert ::
  "(string \<Rightarrow> string \<Rightarrow> int) \<Rightarrow> HandlerClass list \<Rightarrow> ConverterState \<Rightarrow> File list \<Rightarrow>
   FileFormat \<Rightarrow> FileFormat \<Rightarrow> (ConverterState \<times> ConversionResult \<times> Effect list) option" where
  "convert localeCompare handlerClasses st inputFiles inputFmt outputFmt =
     (case ensureInitialized localeCompare handlerClasses st of
        (st1, t0) \<Rightarrow>
          (let t1 = t0 @ [Progress \<lparr>stage = Converting, progress = 0,
                                     message = ''Finding conversion route...''\<rparr>]
           in if mime inputFmt = mime outputFmt then
                Some (st1,
                      \<lparr>success = True,
                       r_message = ''Files are already in the target format.'',
                       path = Some [toUpperCase (format inputFmt)],
                       files = Some (loadFiles inputFiles)\<rparr>,
                      t1)
              else
                (case findConversionPath (handlers st1) inputFmt outputFmt 3 of
                   None \<Rightarrow> None
                 | Some None \<Rightarrow>
                     Some (st1,
                           \<lparr>success = False,
                            r_message = ''No conversion path found from '' @
                              toUpperCase (format inputFmt) @ '' to '' @
                              toUpperCase (format outputFmt) @
                              ''. Try a different output format.'',
                            path = None,
                            files = None\<rparr>,
                           t1)
                 | Some (Some p) \<Rightarrow>
                     (let t2 = t1 @ [Progress \<lparr>stage = Converting, progress = 10,
                                       message = ''Converting: '' @
                                         join arrowSep
                                           (map (\<lambda>s. toUpperCase (format (outputFormat s)))
                                              (steps p))\<rparr>]
                      in case executeSteps (length (steps p)) 0 (steps p)
                                (loadFiles inputFiles) [toUpperCase (format inputFmt)] of
                           (Inl failure, t) \<Rightarrow> Some (st1, failure, t2 @ t)
                         | (Inr (out, pathFormats), t) \<Rightarrow>
                             Some (st1,
                                   \<lparr>success = True,
                                    r_message = ''Successfully converted to '' @
                                      toUpperCase (format outputFmt),
                                    path = Some pathFormats,
                                    files = Some out\<rparr>,
                                   t2 @ t @ [Progress \<lparr>stage = Complete, progress = 100,
                                               message = ''Conversion complete!''\<rparr>])))))"

section \<open>The capability graph\<close>

text \<open>
  The nodes are mime types; there is an edge from \<open>a\<close> to \<open>b\<close> when some ready handler
  declares an input format of mime \<open>a\<close> and an output format of mime \<open>b\<close>.
\<close>

definition edge :: "FormatHandler list \<Rightarrow> string \<Rightarrow> string \<Rightarrow> bool" where
  "edge hs a b =
     list_ex (\<lambda>h. case supportedFormats h of
                     None \<Rightarrow> False
                   | Some fs \<Rightarrow> ready h \<and> canInput fs a \<and> canOutput fs b) hs"

text \<open>Every mime type some handler declares, in declaration order.\<close>

definition mimeList :: "FormatHandler list \<Rightarrow> string list" where
  "mimeList hs =
     concat (map (\<lambda>h. case supportedFormats h of None \<Rightarrow> [] | Some fs \<Rightarrow> map mime fs) hs)"

text \<open>
  \<open>hasPath hs n a b\<close>: the graph has a conversion path of exactly \<open>n\<close> edges from \<open>a\<close> to
  \<open>b\<close>. The next node of a path is the target of an edge, so it is a declared mime type.
\<close>

fun hasPath :: "FormatHandler list \<Rightarrow> nat \<Rightarrow> string \<Rightarrow> string \<Rightarrow> bool" where
  "hasPath hs 0 a b = (a = b)"
| "hasPath hs (Suc n) a b = list_ex (\<lambda>c. edge hs a c \<and> hasPath hs n c b) (mimeList hs)"

text \<open>The same notion on an explicit list of nodes.\<close>

fun isPath :: "FormatHandler list \<Rightarrow> string list \<Rightarrow> bool" where
  "isPath hs [] = False"
| "isPath hs [a] = True"
| "isPath hs (a # b # ms) = (edge hs a b \<and> isPath hs (b # ms))"

section \<open>Measure and invariant of the search loop\<close>

definition allMimes :: "FormatHandler list \<Rightarrow> string set" where
  "allMimes hs = set (mimeList hs)"

text \<open>The number of declared mime types not yet visited, plus the length of the queue.\<close>

definition bfsMeasure :: "FormatHandler list \<Rightarrow> string set \<times> QItem list \<Rightarrow> nat" where
  "bfsMeasure hs s = card (allMimes hs - fst s) + length (snd s)"

definition depth :: "QItem \<Rightarrow> nat" where
  "depth q = length (q_path q)"

definition q_mime :: "QItem \<Rightarrow> string" where
  "q_mime q = mime (q_format q)"

text \<open>Every queued entry records a path of the graph from the source to its format.\<close>

definition queueSound :: "FormatHandler list \<Rightarrow> string \<Rightarrow> QItem list \<Rightarrow> bool" where
  "queueSound hs src queue = (\<forall>q \<in> set queue. hasPath hs (depth q) src (q_mime q))"

text \<open>
  The queue holds at most two consecutive depths, in order; and a visited mime type is
  either waiting in the queue or reachable by a path no longer than any queued entry.
\<close>

definition bfsInv :: "FormatHandler list \<Rightarrow> string \<Rightarrow> string set \<times> QItem list \<Rightarrow> bool" where
  "bfsInv hs src s =
     (queueSound hs src (snd s) \<and>
      sorted (map depth (snd s)) \<and>
      (\<forall>q \<in> set (snd s). depth q \<le> depth (hd (snd s)) + 1) \<and>
      (\<forall>m \<in> fst s. (\<exists>q \<in> set (snd s). q_mime q = m) \<or>
                     (\<exists>e. hasPath hs e src m \<and> (\<forall>q \<in> set (snd s). e \<le> depth q))))"

text \<open>The mime types one expansion reaches from \<open>c\<close>.\<close>

definition nbrs :: "bool \<Rightarrow> FormatHandler list \<Rightarrow> string \<Rightarrow> string set" where
  "nbrs skipSelf hs c = {m. edge hs c m \<and> \<not> (skipSelf \<and> m = c)}"

section \<open>Notions used to state the registry claims\<close>

text \<open>The pair that the catalog deduplicates on.\<close>

definition formatKey :: "FileFormat \<Rightarrow> string \<times> string" where
  "formatKey f = (mime f, format f)"

definition catalogUnique :: "FileFormat list \<Rightarrow> bool" where
  "catalogUnique catalog = distinct (map formatKey catalog)"

text \<open>All formats the handlers of a list declare, in registration order.\<close>

definition declaredFormats :: "FormatHandler list \<Rightarrow> FileFormat list" where
  "declaredFormats hs =
     concat (map (\<lambda>h. case supportedFormats h of None \<Rightarrow> [] | Some fs \<Rightarrow> fs) hs)"

text \<open>The instances whose \<^verbatim>\<open>init\<close> did not throw, as \<^verbatim>\<open>init\<close> left them.\<close>

fun initializedInstances :: "HandlerClass list \<Rightarrow> FormatHandler list" where
  "initializedInstances [] = []"
| "initializedInstances (hc # hcs) =
     (case init hc (construct hc) of
        Inl e \<Rightarrow> initializedInstances hcs
      | Inr h \<Rightarrow> h # initializedInstances hcs)"

text \<open>Merging the declarations of a list of handlers into a catalog, one handler at a time.\<close>

fun mergeCatalog :: "FileFormat list \<Rightarrow> FormatHandler list \<Rightarrow> FileFormat list" where
  "mergeCatalog catalog [] = catalog"
| "mergeCatalog catalog (h # hs) =
     mergeCatalog (case supportedFormats h of
                     None \<Rightarrow> catalog
                   | Some fmts \<Rightarrow> collectFormats fmts catalog) hs"

text \<open>
  The order of the catalog: by category in the order image, video, audio, document,
  archive, other, and by display name inside a category.
\<close>

definition catalogLe :: "(string \<Rightarrow> string \<Rightarrow> int) \<Rightarrow> FileFormat \<Rightarrow> FileFormat \<Rightarrow> bool" where
  "catalogLe localeCompare a b =
     (categoryIndex (category a) < categoryIndex (category b) \<or>
      (category a = category b \<and> localeCompare (name a) (name b) \<le> 0))"

text \<open>
  What the sort needs of \<^verbatim>\<open>localeCompare\<close>: any two names are comparable, and
  ``not after'' is transitive.
\<close>

definition consistentCompare :: "(string \<Rightarrow> string \<Rightarrow> int) \<Rightarrow> bool" where
  "consistentCompare localeCompare =
     ((\<forall>a b. localeCompare a b \<le> 0 \<or> localeCompare b a \<le> 0) \<and>
      (\<forall>a b c. localeCompare a b \<le> 0 \<and> localeCompare b c \<le> 0 \<longrightarrow> localeCompare a c \<le> 0))"

text \<open>The parts of an effect trace.\<close>

fun progressOf :: "Effect list \<Rightarrow> ConversionProgress list" where
  "progressOf [] = []"
| "progressOf (Progress p # t) = p # progressOf t"
| "progressOf (e # t) = progressOf t"

fun initCallsOf :: "Effect list \<Rightarrow> string list" where
  "initCallsOf [] = []"
| "initCallsOf (InitCall n # t) = n # initCallsOf t"
| "initCallsOf (e # t) = initCallsOf t"

fun isProgress :: "Effect \<Rightarrow> bool" where
  "isProgress (Progress p) = True"
| "isProgress e = False"

fun isDoConvertCall :: "Effect \<Rightarrow> bool" where
  "isDoConvertCall (DoConvertCall n fs a b) = True"
| "isDoConvertCall e = False"

text \<open>
  The percentage \<^verbatim>\<open>10 + Math.round(((i + 1) / path.steps.length) * 80)\<close> emitted before
  the \<open>j\<close>-th of \<open>n\<close> steps, counted from 1 (so \<open>j = i + 1\<close>).
\<close>

definition stepPercent :: "nat \<Rightarrow> nat \<Rightarrow> int" where
  "stepPercent n j = 10 + Math_round (of_nat j / of_nat n * 80)"

section \<open>Example configurations\<close>

text \<open>Small handlers and formats on which the theorems below are instantiated.\<close>

definition exFormat :: "string \<Rightarrow> string \<Rightarrow> string \<Rightarrow> bool \<Rightarrow> bool \<Rightarrow> Category \<Rightarrow> FileFormat" where
  "exFormat n c m f t cat =
     \<lparr>name = n, format = c, extension = c, mime = m, from' = f, to' = t, internal = c, category = cat\<rparr>"

definition okConvert :: "FileData list \<Rightarrow> FileFormat \<Rightarrow> FileFormat \<Rightarrow> js_exn + FileData list" where
  "okConvert fs a b = Inr (map (\<lambda>f. f\<lparr>fd_name := fd_name f @ ''.'' @ extension b\<rparr>) fs)"

definition failConvert :: "FileData list \<Rightarrow> FileFormat \<Rightarrow> FileFormat \<Rightarrow> js_exn + FileData list" where
  "failConvert fs a b = Inl (Error ''boom'')"

definition exHtml :: FileFormat where "exHtml = exFormat ''HyperText'' ''html'' ''text/html'' True False Document"
definition exSvgOut :: FileFormat where "exSvgOut = exFormat ''SVG Vector'' ''svg'' ''image/svg+xml'' False True Image"
definition exSvgIn :: FileFormat where "exSvgIn = exFormat ''SVG Vector'' ''svg'' ''image/svg+xml'' True False Image"
definition exPng :: FileFormat where "exPng = exFormat ''Portable Network Graphics'' ''png'' ''image/png'' True True Image"

definition exH1 :: FormatHandler where
  "exH1 = \<lparr>h_name = ''H1'', supportedFormats = Some [exHtml, exSvgOut], ready = True, doConvert = okConvert\<rparr>"
definition exH2 :: FormatHandler where
  "exH2 = \<lparr>h_name = ''H2'', supportedFormats = Some [exSvgIn, exPng], ready = True, doConvert = okConvert\<rparr>"

definition exJpeg :: FileFormat where "exJpeg = exFormat ''JPEG Image'' ''jpeg'' ''image/jpeg'' True True Image"
definition exWebp :: FileFormat where "exWebp = exFormat ''WebP Image'' ''webp'' ''image/webp'' True True Image"

definition exRaster :: FormatHandler where
  "exRaster = \<lparr>h_name = ''raster'', supportedFormats = Some [exJpeg, exWebp], ready = True, doConvert = okConvert\<rparr>"

text \<open>A comparison of names by character code, standing in for \<^verbatim>\<open>localeCompare\<close>.\<close>

fun codeUnitCompare :: "string \<Rightarrow> string \<Rightarrow> int" where
  "codeUnitCompare [] [] = 0"
| "codeUnitCompare [] (y # ys) = - 1"
| "codeUnitCompare (x # xs) [] = 1"
| "codeUnitCompare (x # xs) (y # ys) =
     (if (of_char x :: nat) < of_char y then - 1
      else if (of_char y :: nat) < of_char x then 1
      else codeUnitCompare xs ys)"

text \<open>
  Handler classes: one whose \<^verbatim>\<open>init\<close> sets the ready flag, one whose \<^verbatim>\<open>init\<close> throws,
  and one that initialises with no formats at all, as a handler does that skips its setup
  outside the browser.
\<close>

definition exClass :: "string \<Rightarrow> FileFormat list \<Rightarrow> HandlerClass" where
  "exClass n fs =
     \<lparr>construct = \<lparr>h_name = n, supportedFormats = Some fs, ready = False, doConvert = okConvert\<rparr>,
      init = (\<lambda>h. Inr (h\<lparr>ready := True\<rparr>))\<rparr>"

definition exFailingClass :: "string \<Rightarrow> FileFormat list \<Rightarrow> HandlerClass" where
  "exFailingClass n fs =
     \<lparr>construct = \<lparr>h_name = n, supportedFormats = Some fs, ready = False, doConvert = okConvert\<rparr>,
      init = (\<lambda>h. Inl (Error ''init failed''))\<rparr>"

definition exEmptyClass :: HandlerClass where
  "exEmptyClass =
     \<lparr>construct = \<lparr>h_name = ''empty'', supportedFormats = Some [], ready = False, doConvert = okConvert\<rparr>,
      init = (\<lambda>h. Inr h)\<rparr>"

definition exPngOther :: FileFormat where
  "exPngOther = exFormat ''PNG image (second handler)'' ''png'' ''image/png'' True True Other"

definition exMp3 :: FileFormat where
  "exMp3 = exFormat ''MP3 Audio'' ''mp3'' ''audio/mpeg'' True True Audio"

definition exApng :: FileFormat where
  "exApng = exFormat ''Animated PNG'' ''apng'' ''image/png'' True True Image"
definition exZpng :: FileFormat where
  "exZpng = exFormat ''Zeta PNG'' ''png'' ''image/png'' True True Image"


definition exPdf :: FileFormat where
  "exPdf = exFormat ''PDF Document'' ''pdf'' ''application/pdf'' True False Document"

definition exBrokenClass :: "string \<Rightarrow> FileFormat list \<Rightarrow> HandlerClass" where
  "exBrokenClass n fs =
     \<lparr>construct = \<lparr>h_name = n, supportedFormats = Some fs, ready = False, doConvert = failConvert\<rparr>,
      init = (\<lambda>h. Inr (h\<lparr>ready := True\<rparr>))\<rparr>"

definition exFile :: File where
  "exFile = \<lparr>file_name = ''page'', file_bytes = [60, 104, 49, 62]\<rparr>"

definition exStep2 :: Step where
  "exStep2 = \<lparr>handler = exH2, inputFormat = exSvgIn, outputFormat = exPng\<rparr>"

section \<open>Paths of the capability graph\<close>

lemma edge_iff: "edge hs a b \<longleftrightarrow> (\<exists>h\<in>set hs. \<exists>fs. supportedFormats h = Some fs \<and> ready h \<and> canInput fs a \<and> canOutput fs b)"
  by (auto simp: edge_def list_ex_iff split: option.splits)

lemma edge_target_declared: "edge hs a b \<Longrightarrow> b \<in> set (mimeList hs)"
proof -
  assume "edge hs a b"
  then obtain h fs where h: "h \<in> set hs" "supportedFormats h = Some fs" "canOutput fs b"
    by (auto simp: edge_iff)
  then have "b \<in> set (map mime fs)" by (auto simp: canOutput_def list_ex_iff)
  then have "b \<in> set (case supportedFormats h of None \<Rightarrow> [] | Some fs \<Rightarrow> map mime fs)"
    using h(2) by simp
  then show ?thesis using h(1) unfolding mimeList_def set_concat set_map by blast
qed

lemma hasPath_Suc: "hasPath hs (Suc n) a b \<longleftrightarrow> (\<exists>c. edge hs a c \<and> hasPath hs n c b)"
  by (auto simp: list_ex_iff edge_target_declared)

declare hasPath.simps(2) [simp del]

lemma hasPath_snoc: "hasPath hs n a c \<Longrightarrow> edge hs c b \<Longrightarrow> hasPath hs (Suc n) a b"
proof (induction n arbitrary: a)
  case 0
  then show ?case by (auto simp: hasPath_Suc)
next
  case (Suc n)
  from Suc.prems(1) obtain x where x: "edge hs a x" "hasPath hs n x c"
    by (auto simp: hasPath_Suc)
  from Suc.IH[OF x(2) Suc.prems(2)] x(1) show ?case
    by (subst hasPath_Suc) blast
qed

lemma hasPath_append: "hasPath hs i a c \<Longrightarrow> hasPath hs j c b \<Longrightarrow> hasPath hs (i + j) a b"
proof (induction i arbitrary: a)
  case 0
  then show ?case by simp
next
  case (Suc i)
  from Suc.prems(1) obtain x where x: "edge hs a x" "hasPath hs i x c"
    by (auto simp: hasPath_Suc)
  from Suc.IH[OF x(2) Suc.prems(2)] x(1) have "hasPath hs (Suc (i + j)) a b"
    by (subst hasPath_Suc) blast
  then show ?case by simp
qed

lemma hasPath_isPath:
  "hasPath hs n a b \<longleftrightarrow> (\<exists>ms. isPath hs ms \<and> length ms = Suc n \<and> hd ms = a \<and> last ms = b)"
proof (induction n arbitrary: a)
  case 0
  show ?case
  proof
    assume "hasPath hs 0 a b"
    then have "isPath hs [a] \<and> length [a] = Suc 0 \<and> hd [a] = a \<and> last [a] = b" by simp
    then show "\<exists>ms. isPath hs ms \<and> length ms = Suc 0 \<and> hd ms = a \<and> last ms = b" by blast
  next
    assume "\<exists>ms. isPath hs ms \<and> length ms = Suc 0 \<and> hd ms = a \<and> last ms = b"
    then obtain ms where "length ms = Suc 0" "hd ms = a" "last ms = b" by blast
    then show "hasPath hs 0 a b" by (cases ms) auto
  qed
next
  case (Suc n)
  show ?case
  proof
    assume "hasPath hs (Suc n) a b"
    then obtain c where c: "edge hs a c" "hasPath hs n c b" by (auto simp: hasPath_Suc)
    then obtain ms where ms: "isPath hs ms" "length ms = Suc n" "hd ms = c" "last ms = b"
      using Suc.IH by blast
    then obtain ms' where "ms = c # ms'" by (cases ms) auto
    with ms c have "isPath hs (a # ms) \<and> length (a # ms) = Suc (Suc n) \<and> hd (a # ms) = a \<and> last (a # ms) = b"
      by auto
    then show "\<exists>ms. isPath hs ms \<and> length ms = Suc (Suc n) \<and> hd ms = a \<and> last ms = b" by blast
  next
    assume "\<exists>ms. isPath hs ms \<and> length ms = Suc (Suc n) \<and> hd ms = a \<and> last ms = b"
    then obtain ms where ms: "isPath hs ms" "length ms = Suc (Suc n)" "hd ms = a" "last ms = b" by blast
    then obtain c ms' where eq: "ms = a # c # ms'" by (cases ms; cases "tl ms") auto
    with ms have "edge hs a c" "isPath hs (c # ms')" "length (c # ms') = Suc n" "last (c # ms') = b"
      by auto
    then have "hasPath hs n c b" using Suc.IH[of c] by (metis list.sel(1))
    with \<open>edge hs a c\<close> show "hasPath hs (Suc n) a b" by (auto simp: hasPath_Suc)
  qed
qed

lemma findHandler_None_iff: "findHandler hs f g = None \<longleftrightarrow> \<not> edge hs (mime f) (mime g)"
  by (auto simp: findHandler_def find_None_iff handles_def edge_iff split: option.splits)

section \<open>What one expansion adds to the queue\<close>

lemma scanFormats_spec:
  assumes "\<forall>f\<in>set fs. to' f \<longrightarrow> edge hs (mime cur) (mime f)"
  shows "\<exists>new. snd (scanFormats b h cur pth fs (V, Q)) = Q @ new
           \<and> fst (scanFormats b h cur pth fs (V, Q)) = V \<union> q_mime ` set new
           \<and> (\<forall>q\<in>set new. depth q = Suc (length pth) \<and> q_mime q \<notin> V
                 \<and> q_mime q \<in> nbrs b hs (mime cur))
           \<and> (\<forall>f\<in>set fs. to' f \<and> \<not> (b \<and> mime f = mime cur) \<longrightarrow> mime f \<in> V \<union> q_mime ` set new)"
  using assms
proof (induction fs arbitrary: V Q)
  case Nil
  then show ?case by simp
next
  case (Cons f fs)
  have edges: "\<forall>f\<in>set fs. to' f \<longrightarrow> edge hs (mime cur) (mime f)" using Cons.prems by simp
  show ?case
  proof (cases "\<not> to' f \<or> (b \<and> mime f = mime cur)")
    case True
    from Cons.IH[OF edges, of V Q] obtain new where
      "snd (scanFormats b h cur pth fs (V, Q)) = Q @ new"
      "fst (scanFormats b h cur pth fs (V, Q)) = V \<union> q_mime ` set new"
      "\<forall>q\<in>set new. depth q = Suc (length pth) \<and> q_mime q \<notin> V \<and> q_mime q \<in> nbrs b hs (mime cur)"
      "\<forall>f\<in>set fs. to' f \<and> \<not> (b \<and> mime f = mime cur) \<longrightarrow> mime f \<in> V \<union> q_mime ` set new"
      by blast
    with True show ?thesis by (intro exI[of _ new]) auto
  next
    case False
    note F = this
    show ?thesis
    proof (cases "mime f \<in> V")
      case True
      from Cons.IH[OF edges, of V Q] obtain new where
        "snd (scanFormats b h cur pth fs (V, Q)) = Q @ new"
        "fst (scanFormats b h cur pth fs (V, Q)) = V \<union> q_mime ` set new"
        "\<forall>q\<in>set new. depth q = Suc (length pth) \<and> q_mime q \<notin> V \<and> q_mime q \<in> nbrs b hs (mime cur)"
        "\<forall>f\<in>set fs. to' f \<and> \<not> (b \<and> mime f = mime cur) \<longrightarrow> mime f \<in> V \<union> q_mime ` set new"
        by blast
      with True F show ?thesis by (intro exI[of _ new]) auto
    next
      case False
      define q0 where "q0 = \<lparr>q_format = f, q_path = pth @ [\<lparr>handler = h, inputFormat = cur, outputFormat = f\<rparr>]\<rparr>"
      have q0: "depth q0 = Suc (length pth)" "q_mime q0 = mime f"
        by (simp_all add: q0_def depth_def q_mime_def)
      have nb: "mime f \<in> nbrs b hs (mime cur)"
        using F Cons.prems by (auto simp: nbrs_def)
      from Cons.IH[OF edges, of "insert (mime f) V" "Q @ [q0]"] obtain new where new:
        "snd (scanFormats b h cur pth fs (insert (mime f) V, Q @ [q0])) = (Q @ [q0]) @ new"
        "fst (scanFormats b h cur pth fs (insert (mime f) V, Q @ [q0])) = insert (mime f) V \<union> q_mime ` set new"
        "\<forall>q\<in>set new. depth q = Suc (length pth) \<and> q_mime q \<notin> insert (mime f) V \<and> q_mime q \<in> nbrs b hs (mime cur)"
        "\<forall>f'\<in>set fs. to' f' \<and> \<not> (b \<and> mime f' = mime cur) \<longrightarrow> mime f' \<in> insert (mime f) V \<union> q_mime ` set new"
        by blast
      have eq: "scanFormats b h cur pth (f # fs) (V, Q) = scanFormats b h cur pth fs (insert (mime f) V, Q @ [q0])"
        using F False by (auto simp: q0_def)
      show ?thesis
        unfolding eq
        using new q0 nb False by (intro exI[of _ "q0 # new"]) auto
    qed
  qed
qed

lemma edge_Cons:
  "edge (h # hs) a b \<longleftrightarrow>
     (case supportedFormats h of None \<Rightarrow> False | Some fs \<Rightarrow> ready h \<and> canInput fs a \<and> canOutput fs b)
     \<or> edge hs a b"
  by (simp add: edge_def)

lemma edge_mono: "set hs' \<subseteq> set hs \<Longrightarrow> edge hs' a b \<Longrightarrow> edge hs a b"
  by (auto simp: edge_def list_ex_iff)

lemma scanHandlers_spec_gen:
  assumes "set hs' \<subseteq> set hs"
  shows "\<exists>new. snd (scanHandlers b cur pth hs' (V, Q)) = Q @ new
           \<and> fst (scanHandlers b cur pth hs' (V, Q)) = V \<union> q_mime ` set new
           \<and> (\<forall>q\<in>set new. depth q = Suc (length pth) \<and> q_mime q \<notin> V
                 \<and> q_mime q \<in> nbrs b hs (mime cur))
           \<and> nbrs b hs' (mime cur) \<subseteq> V \<union> q_mime ` set new"
  using assms
proof (induction hs' arbitrary: V Q)
  case Nil
  then show ?case by (simp add: nbrs_def edge_def)
next
  case (Cons h hs')
  have sub: "set hs' \<subseteq> set hs" and hin: "h \<in> set hs" using Cons.prems by auto
  show ?case
  proof (cases "\<exists>fs. supportedFormats h = Some fs \<and> ready h \<and> canInput fs (mime cur)")
    case False
    then have eq: "scanHandlers b cur pth (h # hs') (V, Q) = scanHandlers b cur pth hs' (V, Q)"
      by (auto split: option.splits)
    have nb: "nbrs b (h # hs') (mime cur) = nbrs b hs' (mime cur)"
      using False by (auto simp: nbrs_def edge_Cons split: option.splits)
    show ?thesis unfolding eq nb using Cons.IH[OF sub] by blast
  next
    case True
    then obtain fs where fs: "supportedFormats h = Some fs" "ready h" "canInput fs (mime cur)"
      by blast
    have edges: "\<forall>f\<in>set fs. to' f \<longrightarrow> edge hs (mime cur) (mime f)"
    proof (intro ballI impI)
      fix f assume "f \<in> set fs" "to' f"
      then have "canOutput fs (mime f)" by (auto simp: canOutput_def list_ex_iff)
      then show "edge hs (mime cur) (mime f)" using fs hin by (auto simp: edge_iff)
    qed
    obtain V1 Q1 where s1: "scanFormats b h cur pth fs (V, Q) = (V1, Q1)" by fastforce
    from scanFormats_spec[OF edges, of b h pth V Q] s1 obtain new1 where new1:
      "Q1 = Q @ new1" "V1 = V \<union> q_mime ` set new1"
      "\<forall>q\<in>set new1. depth q = Suc (length pth) \<and> q_mime q \<notin> V \<and> q_mime q \<in> nbrs b hs (mime cur)"
      "\<forall>f\<in>set fs. to' f \<and> \<not> (b \<and> mime f = mime cur) \<longrightarrow> mime f \<in> V \<union> q_mime ` set new1"
      by auto
    have eq: "scanHandlers b cur pth (h # hs') (V, Q) = scanHandlers b cur pth hs' (V1, Q1)"
      using fs s1 by simp
    from Cons.IH[OF sub, of V1 Q1] obtain new2 where new2:
      "snd (scanHandlers b cur pth hs' (V1, Q1)) = Q1 @ new2"
      "fst (scanHandlers b cur pth hs' (V1, Q1)) = V1 \<union> q_mime ` set new2"
      "\<forall>q\<in>set new2. depth q = Suc (length pth) \<and> q_mime q \<notin> V1 \<and> q_mime q \<in> nbrs b hs (mime cur)"
      "nbrs b hs' (mime cur) \<subseteq> V1 \<union> q_mime ` set new2"
      by blast
    have nbh: "nbrs b (h # hs') (mime cur) \<subseteq> V \<union> q_mime ` set (new1 @ new2)"
    proof
      fix m assume m: "m \<in> nbrs b (h # hs') (mime cur)"
      then have ns: "\<not> (b \<and> m = mime cur)" by (simp add: nbrs_def)
      from m have "(canOutput fs m) \<or> edge hs' (mime cur) m"
        using fs by (auto simp: nbrs_def edge_Cons)
      then show "m \<in> V \<union> q_mime ` set (new1 @ new2)"
      proof
        assume "canOutput fs m"
        then obtain f where "f \<in> set fs" "mime f = m" "to' f"
          by (auto simp: canOutput_def list_ex_iff)
        with new1(4) ns show ?thesis by auto
      next
        assume "edge hs' (mime cur) m"
        with ns have "m \<in> nbrs b hs' (mime cur)" by (simp add: nbrs_def)
        with new2(4) new1(2) show ?thesis by auto
      qed
    qed
    show ?thesis
      unfolding eq
      using new1 new2 nbh by (intro exI[of _ "new1 @ new2"]) auto
  qed
qed

lemma scanHandlers_spec:
  obtains new where
    "scanHandlers b cur pth hs (V, Q) = (V \<union> q_mime ` set new, Q @ new)"
    "\<forall>q\<in>set new. depth q = Suc (length pth) \<and> q_mime q \<notin> V \<and> edge hs (mime cur) (q_mime q)"
    "nbrs b hs (mime cur) \<subseteq> V \<union> q_mime ` set new"
proof -
  from scanHandlers_spec_gen[of hs hs b cur pth V Q] obtain new where
      "snd (scanHandlers b cur pth hs (V, Q)) = Q @ new"
      "fst (scanHandlers b cur pth hs (V, Q)) = V \<union> q_mime ` set new"
      "\<forall>q\<in>set new. depth q = Suc (length pth) \<and> q_mime q \<notin> V \<and> q_mime q \<in> nbrs b hs (mime cur)"
      "nbrs b hs (mime cur) \<subseteq> V \<union> q_mime ` set new"
    by blast
  then have "scanHandlers b cur pth hs (V, Q) = (V \<union> q_mime ` set new, Q @ new)"
    "\<forall>q\<in>set new. depth q = Suc (length pth) \<and> q_mime q \<notin> V \<and> edge hs (mime cur) (q_mime q)"
    "nbrs b hs (mime cur) \<subseteq> V \<union> q_mime ` set new"
    by (auto simp: nbrs_def prod_eq_iff)
  then show thesis using that by blast
qed

section \<open>The search loop returns\<close>

lemma finite_allMimes: "finite (allMimes hs)"
  by (simp add: allMimes_def)

lemma declared_mimes_subset:
  "h \<in> set hs \<Longrightarrow> supportedFormats h = Some fs \<Longrightarrow> mime ` set fs \<subseteq> allMimes hs"
  unfolding allMimes_def mimeList_def set_concat set_map by force

lemma scanFormats_measure:
  assumes "finite U" "mime ` set fs \<subseteq> U"
  shows "card (U - fst (scanFormats b h cur pth fs s)) + length (snd (scanFormats b h cur pth fs s))
         = card (U - fst s) + length (snd s)"
  using assms
proof (induction b h cur pth fs s rule: scanFormats.induct)
  case (1 skipSelf h cur pth visited queue)
  then show ?case by simp
next
  case (2 skipSelf h cur pth f fs visited queue)
  have fin: "finite (U - visited)" using 2 by simp
  show ?case
  proof (cases "\<not> to' f \<or> (skipSelf \<and> mime f = mime cur)")
    case True
    then show ?thesis using 2 by auto
  next
    case False
    note F = this
    show ?thesis
    proof (cases "mime f \<in> visited")
      case True
      then show ?thesis using 2 F by auto
    next
      case False
      have mem: "mime f \<in> U - visited" using False 2(5) by auto
      have "card (U - insert (mime f) visited) = card (U - visited) - 1"
        using mem fin by (metis Diff_insert card_Diff_singleton)
      moreover have "card (U - visited) > 0" using mem fin by (metis card_gt_0_iff empty_iff)
      ultimately show ?thesis using 2 F False by auto
    qed
  qed
qed

lemma scanHandlers_measure:
  assumes "finite U" "\<forall>h\<in>set hs. \<forall>fs. supportedFormats h = Some fs \<longrightarrow> mime ` set fs \<subseteq> U"
  shows "card (U - fst (scanHandlers b cur pth hs s)) + length (snd (scanHandlers b cur pth hs s))
         = card (U - fst s) + length (snd s)"
  using assms
proof (induction hs arbitrary: s)
  case Nil
  then show ?case by simp
next
  case (Cons h hs)
  show ?case
  proof (cases "supportedFormats h")
    case None
    then show ?thesis using Cons by simp
  next
    case (Some fs)
    have sub: "mime ` set fs \<subseteq> U" using Cons.prems Some by auto
    show ?thesis using Cons Some scanFormats_measure[OF Cons.prems(1) sub]
      by simp
  qed
qed

lemma scanHandlers_bfsMeasure:
  "bfsMeasure hs (scanHandlers b cur pth hs s) = bfsMeasure hs s"
  unfolding bfsMeasure_def
  by (rule scanHandlers_measure) (use finite_allMimes declared_mimes_subset in blast)+

lemma bfsLoop_returns: "\<exists>r. bfsLoop hs out maxDepth s = Some r"
proof (induction s rule: measure_induct_rule[where f = "bfsMeasure hs"])
  case (less s)
  show ?case
  proof (cases "snd s")
    case Nil
    then show ?thesis by (subst bfsLoop.simps) simp
  next
    case (Cons current rest)
    have m1: "bfsMeasure hs (fst s, rest) < bfsMeasure hs s"
      using Cons by (simp add: bfsMeasure_def)
    have m2: "bfsMeasure hs (scanHandlers False (q_format current) (q_path current) hs (fst s, rest)) < bfsMeasure hs s"
      using m1 by (simp add: scanHandlers_bfsMeasure)
    from less[OF m1] less[OF m2] show ?thesis 
      by (subst bfsLoop.simps) (auto simp: Cons split: option.splits)
  qed
qed

lemma findConversionPath_returns:
  "\<exists>r. findConversionPath hs inp out maxDepth = Some r"
  unfolding findConversionPath_def using bfsLoop_returns by (auto split: option.splits)

section \<open>The search loop finds a shortest route\<close>

lemma bfsLoop_sound:
  assumes "queueSound hs src (snd s)" "bfsLoop hs out M s = Some (Some p)"
  shows "hasPath hs (length (steps p)) src (mime out) \<and> int (length (steps p)) \<le> M"
  using assms
proof (induction s rule: measure_induct_rule[where f = "bfsMeasure hs"])
  case (less s)
  obtain V Q where s: "s = (V, Q)" by (cases s)
  show ?case
  proof (cases Q)
    case Nil
    with less.prems(2) s show ?thesis by (subst (asm) bfsLoop.simps) simp
  next
    case (Cons cur rest)
    have m1: "bfsMeasure hs (V, rest) < bfsMeasure hs s"
      using Cons s by (simp add: bfsMeasure_def)
    have qs: "queueSound hs src rest" "hasPath hs (depth cur) src (q_mime cur)"
      using less.prems(1) s Cons by (auto simp: queueSound_def)
    show ?thesis
    proof (cases "int (length (q_path cur)) \<ge> M")
      case True
      then have "bfsLoop hs out M (V, rest) = Some (Some p)"
        using less.prems(2) s Cons by (subst (asm) bfsLoop.simps) simp
      with less.IH[OF m1] qs(1) show ?thesis by simp
    next
      case False
      note notskip = this
      show ?thesis
      proof (cases "findHandler hs (q_format cur) out")
        case (Some h)
        then have p: "p = \<lparr>steps = q_path cur @ [\<lparr>handler = h, inputFormat = q_format cur, outputFormat = out\<rparr>]\<rparr>"
          using less.prems(2) s Cons notskip by (subst (asm) bfsLoop.simps) simp
        have "edge hs (q_mime cur) (mime out)"
          using Some findHandler_None_iff[of hs "q_format cur" out] by (simp add: q_mime_def)
        then have "hasPath hs (Suc (depth cur)) src (mime out)"
          using hasPath_snoc[OF qs(2)] by simp
        then show ?thesis using p notskip by (simp add: depth_def)
      next
        case None
        obtain new where new:
          "scanHandlers False (q_format cur) (q_path cur) hs (V, rest) = (V \<union> q_mime ` set new, rest @ new)"
          "\<forall>q\<in>set new. depth q = Suc (length (q_path cur)) \<and> q_mime q \<notin> V \<and> edge hs (mime (q_format cur)) (q_mime q)"
          by (rule scanHandlers_spec)
        have run: "bfsLoop hs out M (V \<union> q_mime ` set new, rest @ new) = Some (Some p)"
          using less.prems(2) s Cons notskip None new(1) by (subst (asm) bfsLoop.simps) simp
        have m2: "bfsMeasure hs (V \<union> q_mime ` set new, rest @ new) < bfsMeasure hs s"
          using m1 scanHandlers_bfsMeasure[of hs False "q_format cur" "q_path cur" "(V, rest)"] new(1)
          by simp
        have "queueSound hs src (rest @ new)"
          unfolding queueSound_def
        proof
          fix q assume "q \<in> set (rest @ new)"
          then consider "q \<in> set rest" | "q \<in> set new" by auto
          then show "hasPath hs (depth q) src (q_mime q)"
          proof cases
            case 1
            then show ?thesis using qs(1) by (simp add: queueSound_def)
          next
            case 2
            then have "depth q = Suc (depth cur)" "edge hs (q_mime cur) (q_mime q)"
              using new(2) by (auto simp: depth_def q_mime_def)
            then show ?thesis using hasPath_snoc[OF qs(2)] by simp
          qed
        qed
        with less.IH[OF m2] run show ?thesis by simp
      qed
    qed
  qed
qed

lemma expand_inv:
  assumes inv: "bfsInv hs src (V, cur # rest)"
    and new: "\<forall>q\<in>set new. depth q = Suc (depth cur) \<and> edge hs (q_mime cur) (q_mime q)"
  shows "bfsInv hs src (V \<union> q_mime ` set new, rest @ new)"
proof -
  have qs: "queueSound hs src rest" "hasPath hs (depth cur) src (q_mime cur)"
    using inv by (auto simp: bfsInv_def queueSound_def)
  have lo: "\<forall>q\<in>set rest. depth cur \<le> depth q"
    using inv by (auto simp: bfsInv_def)
  have hi: "\<forall>q\<in>set rest. depth q \<le> depth cur + 1"
    using inv by (auto simp: bfsInv_def)
  have srt: "sorted (map depth rest)" using inv by (auto simp: bfsInv_def)
  have lo': "\<forall>q\<in>set (rest @ new). depth cur \<le> depth q" using lo new by auto
  have hi': "\<forall>q\<in>set (rest @ new). depth q \<le> depth cur + 1" using hi new by auto
  have c1: "queueSound hs src (rest @ new)"
    unfolding queueSound_def
  proof
    fix q assume "q \<in> set (rest @ new)"
    then consider "q \<in> set rest" | "q \<in> set new" by auto
    then show "hasPath hs (depth q) src (q_mime q)"
    proof cases
      case 1
      then show ?thesis using qs(1) by (simp add: queueSound_def)
    next
      case 2
      then show ?thesis using new hasPath_snoc[OF qs(2)] by simp
    qed
  qed
  have "sorted (map depth new)"
    using new by (simp add: sorted_wrt_iff_nth_less sorted_map)
  then have c2: "sorted (map depth (rest @ new))"
    using srt hi new by (auto simp: sorted_append)
  have c3: "\<forall>q\<in>set (rest @ new). depth q \<le> depth (hd (rest @ new)) + 1"
  proof
    fix q assume q: "q \<in> set (rest @ new)"
    then have "rest @ new \<noteq> []" by auto
    then have "hd (rest @ new) \<in> set (rest @ new)" by (rule hd_in_set)
    then have "depth cur \<le> depth (hd (rest @ new))" using lo' by blast
    moreover have "depth q \<le> depth cur + 1" using hi' q by blast
    ultimately show "depth q \<le> depth (hd (rest @ new)) + 1" by simp
  qed
  have c4: "\<forall>m \<in> V \<union> q_mime ` set new. (\<exists>q \<in> set (rest @ new). q_mime q = m) \<or>
                     (\<exists>e. hasPath hs e src m \<and> (\<forall>q \<in> set (rest @ new). e \<le> depth q))"
  proof
    fix m assume "m \<in> V \<union> q_mime ` set new"
    then consider "m \<in> q_mime ` set new" | "m \<in> V" by auto
    then show "(\<exists>q \<in> set (rest @ new). q_mime q = m) \<or>
                     (\<exists>e. hasPath hs e src m \<and> (\<forall>q \<in> set (rest @ new). e \<le> depth q))"
    proof cases
      case 1
      then show ?thesis by auto
    next
      case 2
      then have "(\<exists>q \<in> set (cur # rest). q_mime q = m) \<or>
                     (\<exists>e. hasPath hs e src m \<and> (\<forall>q \<in> set (cur # rest). e \<le> depth q))"
        using inv by (simp add: bfsInv_def)
      then consider "q_mime cur = m" | "\<exists>q \<in> set rest. q_mime q = m"
        | e where "hasPath hs e src m" "e \<le> depth cur" by auto
      then show ?thesis
      proof cases
        case 1
        then have "hasPath hs (depth cur) src m" using qs(2) by simp
        then show ?thesis using lo' by blast
      next
        case 2
        then show ?thesis by auto
      next
        case 3
        then have "\<forall>q \<in> set (rest @ new). e \<le> depth q" using lo' by fastforce
        with 3(1) show ?thesis by blast
      qed
    qed
  qed
  show ?thesis unfolding bfsInv_def using c1 c2 c3 c4 by simp
qed

lemma bfsLoop_complete:
  assumes "bfsInv hs src s"
    and "\<exists>q\<in>set (snd s). \<exists>r\<ge>1. hasPath hs r (q_mime q) (mime out) \<and> depth q + r \<le> k"
    and minimal: "\<forall>j<k. \<not> hasPath hs j src (mime out)"
    and bound: "int k \<le> M"
  shows "\<exists>p. bfsLoop hs out M s = Some (Some p) \<and> length (steps p) \<le> k"
  using assms(1,2)
proof (induction s rule: measure_induct_rule[where f = "bfsMeasure hs"])
  case (less s)
  obtain V Q where s: "s = (V, Q)" by (cases s)
  from less.prems(2) s obtain q r where q: "q \<in> set Q" "r \<ge> 1"
    "hasPath hs r (q_mime q) (mime out)" "depth q + r \<le> k" by auto
  then obtain cur rest where Q: "Q = cur # rest" by (cases Q) auto
  have inv: "bfsInv hs src (V, cur # rest)" using less.prems(1) s Q by simp
  have lo: "\<forall>x\<in>set rest. depth cur \<le> depth x"
    using inv by (auto simp: bfsInv_def)
  have hi: "\<forall>x\<in>set rest. depth x \<le> depth cur + 1"
    using inv by (auto simp: bfsInv_def)
  have pcur: "hasPath hs (depth cur) src (q_mime cur)"
    using inv by (auto simp: bfsInv_def queueSound_def)
  have dq: "depth cur \<le> depth q" using q(1) Q lo by auto
  have notskip: "\<not> int (length (q_path cur)) \<ge> M"
    using dq q(2,4) bound by (simp add: depth_def)
  show ?case
  proof (cases "findHandler hs (q_format cur) out")
    case (Some h)
    have "bfsLoop hs out M s = Some (Some \<lparr>steps = q_path cur @ [\<lparr>handler = h, inputFormat = q_format cur, outputFormat = out\<rparr>]\<rparr>)"
      using s Q notskip Some by (subst bfsLoop.simps) simp
    moreover have "length (q_path cur) + 1 \<le> k" using dq q(2,4) by (simp add: depth_def)
    ultimately show ?thesis by simp
  next
    case None
    then have noedge: "\<not> edge hs (q_mime cur) (mime out)"
      using findHandler_None_iff[of hs "q_format cur" out] by (simp add: q_mime_def)
    obtain new where new:
      "scanHandlers False (q_format cur) (q_path cur) hs (V, rest) = (V \<union> q_mime ` set new, rest @ new)"
      "\<forall>q\<in>set new. depth q = Suc (length (q_path cur)) \<and> q_mime q \<notin> V \<and> edge hs (mime (q_format cur)) (q_mime q)"
      "nbrs False hs (mime (q_format cur)) \<subseteq> V \<union> q_mime ` set new"
      by (rule scanHandlers_spec)
    define s' where "s' = (V \<union> q_mime ` set new, rest @ new)"
    have run: "bfsLoop hs out M s = bfsLoop hs out M s'"
      using s Q notskip None new(1) unfolding s'_def by (subst bfsLoop.simps) simp
    have m2: "bfsMeasure hs s' < bfsMeasure hs s"
      using scanHandlers_bfsMeasure[of hs False "q_format cur" "q_path cur" "(V, rest)"] new(1) s Q
      unfolding s'_def by (simp add: bfsMeasure_def)
    have new': "\<forall>q\<in>set new. depth q = Suc (depth cur) \<and> edge hs (q_mime cur) (q_mime q)"
      using new(2) by (simp add: depth_def q_mime_def)
    have inv': "bfsInv hs src s'"
      unfolding s'_def by (rule expand_inv[OF inv new'])
    have G': "\<exists>q\<in>set (snd s'). \<exists>r\<ge>1. hasPath hs r (q_mime q) (mime out) \<and> depth q + r \<le> k"
    proof (cases "q \<in> set rest")
      case True
      then show ?thesis using q unfolding s'_def by auto
    next
      case False
      then have qc: "q = cur" using q(1) Q by simp
      from q(2) obtain r' where r: "r = Suc r'" by (cases r) auto
      with q(3) qc obtain c where c: "edge hs (q_mime cur) c" "hasPath hs r' c (mime out)"
        by (auto simp: hasPath_Suc)
      have r'pos: "r' \<ge> 1"
      proof (rule ccontr)
        assume "\<not> r' \<ge> 1"
        then have "r' = 0" by simp
        with c noedge show False by simp
      qed
      have short: "\<And>e. hasPath hs e src c \<Longrightarrow> e \<le> depth cur \<Longrightarrow> False"
      proof -
        fix e assume e: "hasPath hs e src c" "e \<le> depth cur"
        have "hasPath hs (e + r') src (mime out)" using hasPath_append[OF e(1) c(2)] .
        moreover have "e + r' < k" using e(2) q(4) qc r by simp
        ultimately show False using minimal by blast
      qed
      have "c \<in> nbrs False hs (mime (q_format cur))"
        using c(1) by (simp add: nbrs_def q_mime_def)
      then have "c \<in> V \<union> q_mime ` set new" using new(3) by blast
      then consider "c \<in> q_mime ` set new" | "c \<in> V" by auto
      then show ?thesis
      proof cases
        case 1
        then obtain q' where q': "q' \<in> set new" "q_mime q' = c" by auto
        then have "depth q' + r' \<le> k" using new' q(4) qc r by simp
        with q' c(2) r'pos show ?thesis unfolding s'_def by auto
      next
        case 2
        then have "(\<exists>x \<in> set (cur # rest). q_mime x = c) \<or>
                     (\<exists>e. hasPath hs e src c \<and> (\<forall>x \<in> set (cur # rest). e \<le> depth x))"
          using inv by (simp add: bfsInv_def)
        then consider "q_mime cur = c" | q' where "q' \<in> set rest" "q_mime q' = c"
          | e where "hasPath hs e src c" "e \<le> depth cur" by auto
        then show ?thesis
        proof cases
          case 1
          then show ?thesis using short[of "depth cur"] pcur by simp
        next
          case 2
          then have "depth q' + r' \<le> k" using hi q(4) qc r by fastforce
          with 2 c(2) r'pos show ?thesis unfolding s'_def by auto
        next
          case 3
          then show ?thesis using short by blast
        qed
      qed
    qed
    from less.IH[OF m2 inv' G'] run show ?thesis by simp
  qed
qed

lemma initial_scan_inv:
  obtains new where
    "scanHandlers True inp [] hs ({}, []) = (q_mime ` set new, new)"
    "bfsInv hs (mime inp) (q_mime ` set new, new)"
    "nbrs True hs (mime inp) \<subseteq> q_mime ` set new"
    "\<forall>q\<in>set new. depth q = 1"
proof -
  obtain new where new:
    "scanHandlers True inp [] hs ({}, []) = ({} \<union> q_mime ` set new, [] @ new)"
    "\<forall>q\<in>set new. depth q = Suc (length ([]::Step list)) \<and> q_mime q \<notin> {} \<and> edge hs (mime inp) (q_mime q)"
    "nbrs True hs (mime inp) \<subseteq> {} \<union> q_mime ` set new"
    by (rule scanHandlers_spec)
  have d: "\<forall>q\<in>set new. depth q = 1" using new(2) by simp
  have "queueSound hs (mime inp) new"
    unfolding queueSound_def using new(2) by (auto simp: hasPath_Suc)
  moreover have "sorted (map depth new)"
    using d by (simp add: sorted_wrt_iff_nth_less sorted_map)
  moreover have "\<forall>q\<in>set new. depth q \<le> depth (hd new) + 1" using d by simp
  ultimately have "bfsInv hs (mime inp) (q_mime ` set new, new)"
    unfolding bfsInv_def by auto
  then show thesis using that new d by simp
qed

lemma findConversionPath_sound:
  assumes "findConversionPath hs inp out M = Some (Some p)"
  shows "hasPath hs (length (steps p)) (mime inp) (mime out) \<and> (length (steps p) = 1 \<or> int (length (steps p)) \<le> M)"
proof (cases "findHandler hs inp out")
  case (Some h)
  then have "edge hs (mime inp) (mime out)"
    using findHandler_None_iff[of hs inp out] by simp
  moreover have "length (steps p) = 1" using assms Some by (auto simp: findConversionPath_def)
  ultimately show ?thesis by (simp add: hasPath_Suc)
next
  case None
  obtain new where new:
    "scanHandlers True inp [] hs ({}, []) = (q_mime ` set new, new)"
    "bfsInv hs (mime inp) (q_mime ` set new, new)"
    by (rule initial_scan_inv)
  have run: "bfsLoop hs out M (q_mime ` set new, new) = Some (Some p)"
    using assms None new(1) by (auto simp: findConversionPath_def split: if_splits)
  have "queueSound hs (mime inp) (snd (q_mime ` set new, new))"
    using new(2) by (simp add: bfsInv_def)
  from bfsLoop_sound[OF this run] show ?thesis by simp
qed

lemma findConversionPath_complete:
  assumes distinct: "mime inp \<noteq> mime out"
    and path: "hasPath hs k (mime inp) (mime out)"
    and minimal: "\<forall>j<k. \<not> hasPath hs j (mime inp) (mime out)"
    and bound: "int k \<le> M \<or> k = 1"
  shows "\<exists>p. findConversionPath hs inp out M = Some (Some p) \<and> length (steps p) \<le> k"
proof (cases "findHandler hs inp out")
  case (Some h)
  have "k \<noteq> 0" using path distinct by (cases k) auto
  then show ?thesis using Some by (auto simp: findConversionPath_def)
next
  case None
  then have noedge: "\<not> edge hs (mime inp) (mime out)"
    using findHandler_None_iff[of hs inp out] by simp
  have "k \<noteq> 0" using path distinct by (cases k) auto
  moreover have "k \<noteq> 1" using path noedge by (auto simp: hasPath_Suc)
  ultimately obtain k' where k: "k = Suc k'" "k' \<ge> 1" by (cases k) auto
  have M: "int k \<le> M" "\<not> M \<le> 1" using bound k by auto
  from path k obtain c where c: "edge hs (mime inp) c" "hasPath hs k' c (mime out)"
    by (auto simp: hasPath_Suc)
  have "c \<noteq> mime inp" using c(2) minimal k by auto
  then have cn: "c \<in> nbrs True hs (mime inp)" using c(1) by (simp add: nbrs_def)
  obtain new where new:
    "scanHandlers True inp [] hs ({}, []) = (q_mime ` set new, new)"
    "bfsInv hs (mime inp) (q_mime ` set new, new)"
    "nbrs True hs (mime inp) \<subseteq> q_mime ` set new"
    "\<forall>q\<in>set new. depth q = 1"
    by (rule initial_scan_inv)
  from cn new(3) obtain q where q: "q \<in> set new" "q_mime q = c" by auto
  then have "depth q + k' \<le> k" using new(4) k by simp
  with q c(2) k(2)
  have G: "\<exists>q\<in>set (snd (q_mime ` set new, new)). \<exists>r\<ge>1. hasPath hs r (q_mime q) (mime out) \<and> depth q + r \<le> k"
    by auto
  from bfsLoop_complete[OF new(2) G minimal M(1)]
  show ?thesis using None M(2) new(1) by (simp add: findConversionPath_def)
qed

section \<open>The registry in closed form\<close>

lemma initLoop_state:
  "fst (initLoop n i hcs s) =
     (fst s @ initializedInstances hcs, mergeCatalog (snd s) (initializedInstances hcs))"
proof (induction hcs arbitrary: i s)
  case Nil
  then show ?case by simp
next
  case (Cons hc hcs)
  show ?case
  proof (cases "init hc (construct hc)")
    case (Inl e)
    then show ?thesis using Cons[of "i + 1" s] by (auto simp: Let_def split: prod.splits)
  next
    case (Inr h')
    then show ?thesis
      using Cons[of "i + 1" "(fst s @ [h'], case supportedFormats h' of None \<Rightarrow> snd s | Some fmts \<Rightarrow> collectFormats fmts (snd s))"]
      by (auto simp: Let_def split: prod.splits)
  qed
qed

lemma initLoop_initCalls:
  "initCallsOf (snd (initLoop n i hcs s)) = map (\<lambda>hc. h_name (construct hc)) hcs"
proof (induction hcs arbitrary: i s)
  case Nil
  then show ?case by simp
next
  case (Cons hc hcs)
  show ?case
  proof (cases "init hc (construct hc)")
    case (Inl e)
    then show ?thesis using Cons[of "i + 1" s] by (auto simp: Let_def split: prod.splits)
  next
    case (Inr h')
    then show ?thesis
      using Cons[of "i + 1" "(fst s @ [h'], case supportedFormats h' of None \<Rightarrow> snd s | Some fmts \<Rightarrow> collectFormats fmts (snd s))"]
      by (auto simp: Let_def split: prod.splits)
  qed
qed

lemma initCallsOf_append: "initCallsOf (a @ b) = initCallsOf a @ initCallsOf b"
  by (induction a rule: initCallsOf.induct) auto

lemma initializeConverter_fresh:
  assumes "\<not> (initialized st \<and> allFormats st \<noteq> [])"
  shows "fst (initializeConverter lc hcs st) =
           \<lparr>handlers = initializedInstances hcs,
            allFormats = sortBy (compareFormats lc) (mergeCatalog [] (initializedInstances hcs)),
            initialized = True\<rparr>"
    and "fst (snd (initializeConverter lc hcs st)) =
           sortBy (compareFormats lc) (mergeCatalog [] (initializedInstances hcs))"
    and "initCallsOf (snd (snd (initializeConverter lc hcs st))) = map (\<lambda>hc. h_name (construct hc)) hcs"
proof -
  obtain s' t where run: "initLoop (length hcs) 0 hcs ([], []) = (s', t)" by fastforce
  have s': "s' = (initializedInstances hcs, mergeCatalog [] (initializedInstances hcs))"
    using initLoop_state[of "length hcs" 0 hcs "([], [])"] run by simp
  have t: "initCallsOf t = map (\<lambda>hc. h_name (construct hc)) hcs"
    using initLoop_initCalls[of "length hcs" 0 hcs "([], [])"] run by simp
  show "fst (initializeConverter lc hcs st) =
           \<lparr>handlers = initializedInstances hcs,
            allFormats = sortBy (compareFormats lc) (mergeCatalog [] (initializedInstances hcs)),
            initialized = True\<rparr>"
    using assms run s' by (auto simp: initializeConverter_def Let_def)
  show "fst (snd (initializeConverter lc hcs st)) =
           sortBy (compareFormats lc) (mergeCatalog [] (initializedInstances hcs))"
    using assms run s' by (auto simp: initializeConverter_def Let_def)
  show "initCallsOf (snd (snd (initializeConverter lc hcs st))) = map (\<lambda>hc. h_name (construct hc)) hcs"
    using assms run t s' by (auto simp: initializeConverter_def Let_def initCallsOf_append)
qed

lemma initializeConverter_done:
  assumes "initialized st \<and> allFormats st \<noteq> []"
  shows "initializeConverter lc hcs st = (st, allFormats st, [])"
  using assms by (simp add: initializeConverter_def)

lemma initializeConverter_initialized:
  "initialized (fst (initializeConverter lc hcs st))"
  by (cases "initialized st \<and> allFormats st \<noteq> []")
     (simp_all add: initializeConverter_done initializeConverter_fresh(1))

lemma initializeConverter_returns_catalog:
  "fst (snd (initializeConverter lc hcs st)) = allFormats (fst (initializeConverter lc hcs st))"
  by (cases "initialized st \<and> allFormats st \<noteq> []")
     (simp_all add: initializeConverter_done initializeConverter_fresh(1,2))

lemma initializedInstances_append:
  "initializedInstances (xs @ ys) = initializedInstances xs @ initializedInstances ys"
  by (induction xs) (auto split: sum.splits)

lemma initializedInstances_drop_failed:
  "init hc (construct hc) = Inl e \<Longrightarrow>
   initializedInstances (pre @ hc # post) = initializedInstances (pre @ post)"
  by (simp add: initializedInstances_append)

lemma initializedInstances_succeeded:
  "h \<in> set (initializedInstances hcs) \<Longrightarrow> \<exists>hc\<in>set hcs. init hc (construct hc) = Inr h"
  by (induction hcs) (auto split: sum.splits)

lemma find_append:
  "find P (xs @ ys) = (case find P xs of None \<Rightarrow> find P ys | Some x \<Rightarrow> Some x)"
  by (induction xs) auto

lemma set_collectFormats: "set (collectFormats fs cat) \<subseteq> set cat \<union> set fs"
proof (induction fs arbitrary: cat)
  case Nil
  then show ?case by simp
next
  case (Cons f fs)
  have "set (collectFormats fs cat) \<subseteq> set cat \<union> set fs" by (rule Cons.IH)
  moreover have "set (collectFormats fs (cat @ [f])) \<subseteq> set (cat @ [f]) \<union> set fs" by (rule Cons.IH)
  ultimately show ?case by auto
qed

lemma exists_iff_key:
  "list_ex (\<lambda>g. mime g = mime f \<and> format g = format f) cat \<longleftrightarrow> formatKey f \<in> formatKey ` set cat"
proof
  assume "list_ex (\<lambda>g. mime g = mime f \<and> format g = format f) cat"
  then obtain g where "g \<in> set cat" "formatKey g = formatKey f"
    by (auto simp: list_ex_iff formatKey_def)
  then show "formatKey f \<in> formatKey ` set cat" by (metis imageI)
next
  assume "formatKey f \<in> formatKey ` set cat"
  then obtain g where "g \<in> set cat" "formatKey g = formatKey f" by auto
  then show "list_ex (\<lambda>g. mime g = mime f \<and> format g = format f) cat"
    by (auto simp: list_ex_iff formatKey_def)
qed

lemma collectFormats_keys:
  "set (map formatKey (collectFormats fs cat)) = set (map formatKey cat) \<union> set (map formatKey fs)"
proof (induction fs arbitrary: cat)
  case Nil
  then show ?case by simp
next
  case (Cons f fs)
  show ?case
  proof (cases "list_ex (\<lambda>g. mime g = mime f \<and> format g = format f) cat")
    case True
    then have "formatKey f \<in> set (map formatKey cat)"
      by (simp add: exists_iff_key)
    with True Cons show ?thesis by auto
  next
    case False
    with Cons show ?thesis by auto
  qed
qed

lemma collectFormats_unique:
  "catalogUnique cat \<Longrightarrow> catalogUnique (collectFormats fs cat)"
proof (induction fs arbitrary: cat)
  case Nil
  then show ?case by simp
next
  case (Cons f fs)
  show ?case
  proof (cases "list_ex (\<lambda>g. mime g = mime f \<and> format g = format f) cat")
    case True
    with Cons show ?thesis by simp
  next
    case False
    then have "formatKey f \<notin> set (map formatKey cat)"
      by (simp add: exists_iff_key)
    then have "catalogUnique (cat @ [f])" using Cons.prems by (simp add: catalogUnique_def)
    with False Cons.IH show ?thesis by simp
  qed
qed

lemma collectFormats_first:
  "find (\<lambda>g. formatKey g = k) (collectFormats fs cat) = find (\<lambda>g. formatKey g = k) (cat @ fs)"
proof (induction fs arbitrary: cat)
  case Nil
  then show ?case by simp
next
  case (Cons f fs)
  show ?case
  proof (cases "list_ex (\<lambda>g. mime g = mime f \<and> format g = format f) cat")
    case True
    then obtain g where g: "g \<in> set cat" "formatKey g = formatKey f"
      by (auto simp: exists_iff_key)
    have "find (\<lambda>g. formatKey g = k) (cat @ f # fs) = find (\<lambda>g. formatKey g = k) (cat @ fs)"
    proof (cases "formatKey f = k")
      case True
      with g have "find (\<lambda>g. formatKey g = k) cat \<noteq> None" by (auto simp: find_None_iff)
      then show ?thesis by (auto simp: find_append)
    next
      case False
      then show ?thesis by (simp add: find_append split: option.splits)
    qed
    with True Cons.IH[of cat] show ?thesis by simp
  next
    case False
    with Cons.IH[of "cat @ [f]"] show ?thesis by simp
  qed
qed

lemma mergeCatalog_unique:
  "catalogUnique cat \<Longrightarrow> catalogUnique (mergeCatalog cat hs)"
  by (induction hs arbitrary: cat) (auto simp: collectFormats_unique split: option.splits)

lemma mergeCatalog_first:
  "find (\<lambda>g. formatKey g = k) (mergeCatalog cat hs) = find (\<lambda>g. formatKey g = k) (cat @ declaredFormats hs)"
proof (induction hs arbitrary: cat)
  case Nil
  then show ?case by (simp add: declaredFormats_def)
next
  case (Cons h hs)
  show ?case
  proof (cases "supportedFormats h")
    case None
    with Cons show ?thesis by (simp add: declaredFormats_def)
  next
    case (Some fs)
    have "find (\<lambda>g. formatKey g = k) (mergeCatalog cat (h # hs))
        = find (\<lambda>g. formatKey g = k) (collectFormats fs cat @ declaredFormats hs)"
      using Some Cons.IH[of "collectFormats fs cat"] by simp
    also have "\<dots> = find (\<lambda>g. formatKey g = k) ((cat @ fs) @ declaredFormats hs)"
      using collectFormats_first[of k fs cat] by (simp add: find_append split: option.splits)
    finally show ?thesis using Some by (simp add: declaredFormats_def)
  qed
qed

lemma mergeCatalog_subset:
  "set (mergeCatalog cat hs) \<subseteq> set cat \<union> set (declaredFormats hs)"
proof (induction hs arbitrary: cat)
  case Nil
  then show ?case by simp
next
  case (Cons h hs)
  show ?case
  proof (cases "supportedFormats h")
    case None
    with Cons[of cat] show ?thesis by (auto simp: declaredFormats_def)
  next
    case (Some fs)
    with Cons[of "collectFormats fs cat"] set_collectFormats[of fs cat] show ?thesis
      by (auto simp: declaredFormats_def)
  qed
qed

lemma set_insertBy: "set (insertBy cmp x ys) = insert x (set ys)"
  by (induction ys) auto

lemma set_sortBy: "set (sortBy cmp xs) = set xs"
  by (induction xs) (auto simp: sortBy_def set_insertBy)

lemma distinct_map_insertBy:
  "distinct (map f (insertBy cmp x ys)) \<longleftrightarrow> f x \<notin> f ` set ys \<and> distinct (map f ys)"
  by (induction ys) (auto simp: set_insertBy)

lemma distinct_map_sortBy: "distinct (map f (sortBy cmp xs)) \<longleftrightarrow> distinct (map f xs)"
  by (induction xs) (auto simp: sortBy_def distinct_map_insertBy set_sortBy[unfolded sortBy_def])

lemma find_unique_key:
  assumes "distinct (map f xs)"
  shows "find (\<lambda>g. f g = k) xs = Some x \<longleftrightarrow> x \<in> set xs \<and> f x = k"
  using assms
proof (induction xs)
  case Nil
  then show ?case by simp
next
  case (Cons a xs)
  then show ?case by (auto simp: image_iff)
qed

lemma find_sortBy_unique:
  assumes "distinct (map f xs)"
  shows "find (\<lambda>g. f g = k) (sortBy cmp xs) = find (\<lambda>g. f g = k) xs"
proof (cases "find (\<lambda>g. f g = k) xs")
  case None
  then have "find (\<lambda>g. f g = k) (sortBy cmp xs) = None"
    unfolding find_None_iff by (simp add: set_sortBy)
  with None show ?thesis by simp
next
  case (Some x)
  then have "x \<in> set xs \<and> f x = k" using find_unique_key[OF assms] by simp
  then have "x \<in> set (sortBy cmp xs) \<and> f x = k" by (simp add: set_sortBy)
  moreover have "distinct (map f (sortBy cmp xs))" using assms by (simp add: distinct_map_sortBy)
  ultimately show ?thesis using Some find_unique_key[of f "sortBy cmp xs" k x] by simp
qed

section \<open>The catalog sort\<close>

lemma categoryIndex_inj: "categoryIndex a = categoryIndex b \<longleftrightarrow> a = b"
  by (cases a; cases b) simp_all

lemma compareFormats_le: "compareFormats lc a b \<le> 0 \<longleftrightarrow> catalogLe lc a b"
proof (cases "category a = category b")
  case True
  then show ?thesis by (simp add: compareFormats_def catalogLe_def)
next
  case False
  then have "categoryIndex (category a) \<noteq> categoryIndex (category b)"
    by (simp add: categoryIndex_inj)
  with False show ?thesis by (auto simp: compareFormats_def catalogLe_def)
qed

lemma catalogLe_total:
  assumes "consistentCompare lc"
  shows "catalogLe lc a b \<or> catalogLe lc b a"
proof (cases "category a = category b")
  case True
  moreover have "lc (name a) (name b) \<le> 0 \<or> lc (name b) (name a) \<le> 0"
    using assms unfolding consistentCompare_def by blast
  ultimately show ?thesis by (auto simp: catalogLe_def)
next
  case False
  then have "categoryIndex (category a) \<noteq> categoryIndex (category b)"
    by (simp add: categoryIndex_inj)
  then show ?thesis by (auto simp: catalogLe_def)
qed

lemma catalogLe_trans:
  assumes "consistentCompare lc" "catalogLe lc a b" "catalogLe lc b c"
  shows "catalogLe lc a c"
proof -
  have tr: "\<And>x y z. lc x y \<le> 0 \<Longrightarrow> lc y z \<le> 0 \<Longrightarrow> lc x z \<le> 0"
    using assms(1) unfolding consistentCompare_def by blast
  from assms(2,3) show ?thesis
    unfolding catalogLe_def using tr[of "name a" "name b" "name c"] by (elim disjE conjE) simp_all
qed

lemma sorted_insertBy:
  assumes tot: "\<And>a b. cmp a b \<le> 0 \<or> cmp b a \<le> 0"
    and tr: "\<And>a b c. cmp a b \<le> 0 \<Longrightarrow> cmp b c \<le> 0 \<Longrightarrow> cmp a c \<le> (0::int)"
    and srt: "sorted_wrt (\<lambda>a b. cmp a b \<le> 0) ys"
  shows "sorted_wrt (\<lambda>a b. cmp a b \<le> 0) (insertBy cmp x ys)"
  using srt
proof (induction ys)
  case Nil
  then show ?case by simp
next
  case (Cons y ys)
  show ?case
  proof (cases "cmp x y \<le> 0")
    case True
    have "\<forall>z\<in>set ys. cmp x z \<le> 0"
    proof
      fix z assume "z \<in> set ys"
      then have "cmp y z \<le> 0" using Cons.prems by simp
      with True show "cmp x z \<le> 0" by (rule tr)
    qed
    with True Cons.prems show ?thesis by simp
  next
    case False
    then have "cmp y x \<le> 0" using tot[of x y] by simp
    moreover have "sorted_wrt (\<lambda>a b. cmp a b \<le> 0) (insertBy cmp x ys)"
      using Cons by simp
    moreover have "\<forall>z\<in>set ys. cmp y z \<le> 0" using Cons.prems by simp
    ultimately show ?thesis using False by (simp add: set_insertBy)
  qed
qed

lemma sorted_sortBy:
  assumes tot: "\<And>a b. cmp a b \<le> 0 \<or> cmp b a \<le> 0"
    and tr: "\<And>a b c. cmp a b \<le> 0 \<Longrightarrow> cmp b c \<le> 0 \<Longrightarrow> cmp a c \<le> (0::int)"
  shows "sorted_wrt (\<lambda>a b. cmp a b \<le> 0) (sortBy cmp xs)"
proof (induction xs)
  case Nil
  then show ?case by (simp add: sortBy_def)
next
  case (Cons x xs)
  have "sortBy cmp (x # xs) = insertBy cmp x (sortBy cmp xs)" by (simp add: sortBy_def)
  then show ?case using sorted_insertBy[OF tot tr Cons] by simp
qed

lemma sorted_catalog:
  assumes "consistentCompare lc"
  shows "sorted_wrt (catalogLe lc) (sortBy (compareFormats lc) xs)"
proof -
  have "sorted_wrt (\<lambda>a b. compareFormats lc a b \<le> 0) (sortBy (compareFormats lc) xs)"
  proof (rule sorted_sortBy)
    fix a b show "compareFormats lc a b \<le> 0 \<or> compareFormats lc b a \<le> 0"
      using catalogLe_total[OF assms] by (simp add: compareFormats_le)
  next
    fix a b c assume "compareFormats lc a b \<le> 0" "compareFormats lc b c \<le> 0"
    then show "compareFormats lc a c \<le> 0"
      using catalogLe_trans[OF assms] by (simp add: compareFormats_le)
  qed
  then show ?thesis by (simp add: compareFormats_le)
qed

lemma find_sorted_first:
  assumes "sorted_wrt R xs" "\<And>x. R x x" "find P xs = Some f" "g \<in> set xs" "P g"
  shows "R f g"
  using assms
proof (induction xs)
  case Nil
  then show ?case by simp
next
  case (Cons x xs)
  show ?case
  proof (cases "P x")
    case True
    then have "f = x" using Cons.prems(3) by simp
    then show ?thesis using Cons.prems by auto
  next
    case False
    then have "find P xs = Some f" "g \<in> set xs" using Cons.prems by auto
    then show ?thesis using Cons by auto
  qed
qed

lemma codeUnitCompare_total: "codeUnitCompare a b \<le> 0 \<or> codeUnitCompare b a \<le> 0"
  by (induction a b rule: codeUnitCompare.induct) auto

lemma codeUnitCompare_trans:
  "codeUnitCompare a b \<le> 0 \<Longrightarrow> codeUnitCompare b c \<le> 0 \<Longrightarrow> codeUnitCompare a c \<le> 0"
proof (induction a arbitrary: b c)
  case Nil
  then show ?case by (cases c) auto
next
  case (Cons x xs)
  then obtain y ys where b: "b = y # ys" by (cases b) auto
  with Cons.prems obtain z zs where c: "c = z # zs" by (cases c) auto
  show ?case using Cons.prems Cons.IH[of ys zs] unfolding b c
    by (auto split: if_splits)
qed

lemma codeUnitCompare_consistent: "consistentCompare codeUnitCompare"
  unfolding consistentCompare_def using codeUnitCompare_total codeUnitCompare_trans by blast

section \<open>Routes use registered handlers only\<close>

lemma scanFormats_handlers:
  assumes "h \<in> H" "handler ` set pth \<subseteq> H"
  shows "\<forall>q\<in>set Q. handler ` set (q_path q) \<subseteq> H \<Longrightarrow>
         \<forall>q\<in>set (snd (scanFormats b h cur pth fs (V, Q))). handler ` set (q_path q) \<subseteq> H"
proof (induction fs arbitrary: V Q)
  case Nil
  then show ?case by simp
next
  case (Cons f fs)
  let ?q0 = "\<lparr>q_format = f, q_path = pth @ [\<lparr>handler = h, inputFormat = cur, outputFormat = f\<rparr>]\<rparr>"
  have "handler ` set (q_path ?q0) \<subseteq> H" using assms by simp
  then have ext: "\<forall>q\<in>set (Q @ [?q0]). handler ` set (q_path q) \<subseteq> H"
    using Cons.prems by simp
  have a: "\<forall>q\<in>set (snd (scanFormats b h cur pth fs (V, Q))). handler ` set (q_path q) \<subseteq> H"
    by (rule Cons.IH[OF Cons.prems])
  have c: "\<forall>q\<in>set (snd (scanFormats b h cur pth fs (insert (mime f) V, Q @ [?q0]))). handler ` set (q_path q) \<subseteq> H"
    by (rule Cons.IH[OF ext])
  show ?case
  proof (cases "\<not> to' f \<or> (b \<and> mime f = mime cur)")
    case True
    then have "scanFormats b h cur pth (f # fs) (V, Q) = scanFormats b h cur pth fs (V, Q)"
      by auto
    then show ?thesis using a by simp
  next
    case False
    note F = this
    show ?thesis
    proof (cases "mime f \<in> V")
      case True
      then have "scanFormats b h cur pth (f # fs) (V, Q) = scanFormats b h cur pth fs (V, Q)"
        using F by auto
      then show ?thesis using a by simp
    next
      case False
      then have "scanFormats b h cur pth (f # fs) (V, Q) =
          scanFormats b h cur pth fs (insert (mime f) V, Q @ [?q0])"
        using F by auto
      then show ?thesis using c by simp
    qed
  qed
qed

lemma scanHandlers_handlers:
  assumes "set hs' \<subseteq> H" "handler ` set pth \<subseteq> H" "\<forall>q\<in>set (snd s). handler ` set (q_path q) \<subseteq> H"
  shows "\<forall>q\<in>set (snd (scanHandlers b cur pth hs' s)). handler ` set (q_path q) \<subseteq> H"
  using assms
proof (induction hs' arbitrary: s)
  case Nil
  then show ?case by simp
next
  case (Cons h hs')
  have sub: "set hs' \<subseteq> H" and hin: "h \<in> H" using Cons.prems(1) by auto
  show ?case
  proof (cases "supportedFormats h")
    case None
    then show ?thesis using Cons.IH[OF sub Cons.prems(2,3)] by simp
  next
    case (Some fs)
    obtain V Q where s: "s = (V, Q)" by (cases s)
    have "\<forall>q\<in>set (snd (scanFormats b h cur pth fs s)). handler ` set (q_path q) \<subseteq> H"
      unfolding s by (rule scanFormats_handlers[OF hin Cons.prems(2)]) (use Cons.prems(3) s in simp)
    from Cons.IH[OF sub Cons.prems(2) this] Cons.IH[OF sub Cons.prems(2,3)] Some
    show ?thesis by simp
  qed
qed

lemma findHandler_member: "findHandler hs a b = Some h \<Longrightarrow> h \<in> set hs"
  by (auto simp: findHandler_def find_Some_iff)

lemma bfsLoop_handlers:
  assumes "\<forall>q\<in>set (snd s). handler ` set (q_path q) \<subseteq> set hs" "bfsLoop hs out M s = Some (Some p)"
  shows "handler ` set (steps p) \<subseteq> set hs"
  using assms
proof (induction s rule: measure_induct_rule[where f = "bfsMeasure hs"])
  case (less s)
  obtain V Q where s: "s = (V, Q)" by (cases s)
  show ?case
  proof (cases Q)
    case Nil
    with less.prems(2) s show ?thesis by (subst (asm) bfsLoop.simps) simp
  next
    case (Cons cur rest)
    have m1: "bfsMeasure hs (V, rest) < bfsMeasure hs s"
      using Cons s by (simp add: bfsMeasure_def)
    have qr: "\<forall>q\<in>set (snd (V, rest)). handler ` set (q_path q) \<subseteq> set hs"
      and qc: "handler ` set (q_path cur) \<subseteq> set hs"
      using less.prems(1) s Cons by auto
    show ?thesis
    proof (cases "int (length (q_path cur)) \<ge> M")
      case True
      then have "bfsLoop hs out M (V, rest) = Some (Some p)"
        using less.prems(2) s Cons by (subst (asm) bfsLoop.simps) simp
      with less.IH[OF m1 qr] show ?thesis by simp
    next
      case False
      note notskip = this
      show ?thesis
      proof (cases "findHandler hs (q_format cur) out")
        case (Some h)
        then have p: "p = \<lparr>steps = q_path cur @ [\<lparr>handler = h, inputFormat = q_format cur, outputFormat = out\<rparr>]\<rparr>"
          using less.prems(2) s Cons notskip by (subst (asm) bfsLoop.simps) simp
        show ?thesis using p qc findHandler_member[OF Some] by auto
      next
        case None
        let ?s' = "scanHandlers False (q_format cur) (q_path cur) hs (V, rest)"
        have run: "bfsLoop hs out M ?s' = Some (Some p)"
          using less.prems(2) s Cons notskip None by (subst (asm) bfsLoop.simps) simp
        have m2: "bfsMeasure hs ?s' < bfsMeasure hs s"
          using m1 by (simp add: scanHandlers_bfsMeasure)
        have "\<forall>q\<in>set (snd ?s'). handler ` set (q_path q) \<subseteq> set hs"
          by (rule scanHandlers_handlers[OF subset_refl qc qr])
        from less.IH[OF m2 this run] show ?thesis .
      qed
    qed
  qed
qed

lemma findConversionPath_handlers:
  assumes "findConversionPath hs inp out M = Some (Some p)"
  shows "handler ` set (steps p) \<subseteq> set hs"
proof (cases "findHandler hs inp out")
  case (Some h)
  then show ?thesis using assms findHandler_member[OF Some] by (auto simp: findConversionPath_def)
next
  case None
  let ?s0 = "scanHandlers True inp [] hs ({}, [])"
  have run: "bfsLoop hs out M ?s0 = Some (Some p)"
    using assms None by (auto simp: findConversionPath_def split: if_splits)
  have "\<forall>q\<in>set (snd ?s0). handler ` set (q_path q) \<subseteq> set hs"
    by (rule scanHandlers_handlers) auto
  from bfsLoop_handlers[OF this run] show ?thesis .
qed
section \<open>The executor's trace\<close>

lemma isDoConvertCall_initLoop:
  "\<forall>e\<in>set (snd (initLoop n i hcs s)). \<not> isDoConvertCall e"
proof (induction hcs arbitrary: i s)
  case Nil
  then show ?case by simp
next
  case (Cons hc hcs)
  show ?case
  proof (cases "init hc (construct hc)")
    case (Inl e)
    then show ?thesis using Cons[of "i + 1" s] by (auto simp: Let_def split: prod.splits)
  next
    case (Inr h')
    then show ?thesis
      using Cons[of "i + 1" "(fst s @ [h'], case supportedFormats h' of None \<Rightarrow> snd s | Some fmts \<Rightarrow> collectFormats fmts (snd s))"]
      by (auto simp: Let_def split: prod.splits)
  qed
qed

lemma isDoConvertCall_initializeConverter:
  "\<forall>e\<in>set (snd (snd (initializeConverter lc hcs st))). \<not> isDoConvertCall e"
proof (cases "initialized st \<and> allFormats st \<noteq> []")
  case True
  then show ?thesis by (simp add: initializeConverter_done)
next
  case False
  obtain s' t where run: "initLoop (length hcs) 0 hcs ([], []) = (s', t)" by fastforce
  have "\<forall>e\<in>set t. \<not> isDoConvertCall e"
    using isDoConvertCall_initLoop[of "length hcs" 0 hcs "([], [])"] run by simp
  then show ?thesis using False run by (auto simp: initializeConverter_def Let_def split: prod.splits)
qed

lemma isDoConvertCall_ensureInitialized:
  "\<forall>e\<in>set (snd (ensureInitialized lc hcs st)). \<not> isDoConvertCall e"
  using isDoConvertCall_initializeConverter[of lc hcs st]
  by (auto simp: ensureInitialized_def split: prod.splits)

lemma showNat_2: "showNat (Suc (Suc 0)) = ''2''"
  by code_simp

lemma Math_round_nonneg: "0 \<le> x \<Longrightarrow> 0 \<le> Math_round x"
  by (simp add: Math_round_def)

lemma Math_round_le: "x \<le> of_int b \<Longrightarrow> Math_round x \<le> b"
  unfolding Math_round_def floor_le_iff by simp

lemma ratio_le_one: "j \<le> n \<Longrightarrow> (of_nat j :: rat) / of_nat n \<le> 1"
  by (cases "n = 0") (simp_all add: divide_le_eq)

lemma stepPercent_bounds:
  assumes "j \<le> n"
  shows "10 \<le> stepPercent n j \<and> stepPercent n j \<le> 90"
proof -
  let ?x = "(of_nat j :: rat) / of_nat n * 80"
  have "0 \<le> ?x" by simp
  then have lo: "0 \<le> Math_round ?x" by (rule Math_round_nonneg)
  have "?x \<le> 1 * 80" using ratio_le_one[OF assms] by (intro mult_right_mono) simp_all
  then have "?x \<le> of_int 80" by simp
  then have hi: "Math_round ?x \<le> 80" by (rule Math_round_le)
  from lo hi show ?thesis by (simp add: stepPercent_def)
qed

lemma initPercent_bounds:
  assumes "i < n"
  shows "0 \<le> Math_round ((of_nat i + 1 / 2) / of_nat n * 100) \<and>
         Math_round ((of_nat i + 1 / 2) / of_nat n * 100) \<le> 100"
proof -
  let ?r = "((of_nat i :: rat) + 1 / 2) / of_nat n"
  have npos: "(0::rat) < of_nat n" using assms by simp
  have "Suc i \<le> n" using assms by simp
  then have "(of_nat (Suc i) :: rat) \<le> of_nat n" by (simp only: of_nat_le_iff)
  then have "(of_nat i :: rat) + 1 \<le> of_nat n" by simp
  then have "(of_nat i :: rat) + 1 / 2 \<le> of_nat n" by simp
  then have "?r \<le> 1" using npos by (simp add: divide_le_eq)
  then have "?r * 100 \<le> 1 * 100" by (intro mult_right_mono) simp_all
  then have "?r * 100 \<le> of_int 100" by simp
  then have hi: "Math_round (?r * 100) \<le> 100" by (rule Math_round_le)
  have "0 \<le> ?r * 100" by simp
  then have lo: "0 \<le> Math_round (?r * 100)" by (rule Math_round_nonneg)
  from lo hi show ?thesis by simp
qed

lemma progressOf_append: "progressOf (a @ b) = progressOf a @ progressOf b"
  by (induction a rule: progressOf.induct) auto

lemma initLoop_progress_bounds:
  assumes "i + length hcs \<le> n"
  shows "\<forall>p\<in>set (progressOf (snd (initLoop n i hcs s))). 0 \<le> progress p \<and> progress p \<le> 100"
  using assms
proof (induction hcs arbitrary: i s)
  case Nil
  then show ?case by simp
next
  case (Cons hc hcs)
  have i: "i < n" and rest: "(i + 1) + length hcs \<le> n" using Cons.prems by auto
  note b = initPercent_bounds[OF i]
  show ?case
  proof (cases "init hc (construct hc)")
    case (Inl e)
    then show ?thesis using Cons.IH[OF rest, of s] b
      by (auto simp: Let_def split: prod.splits)
  next
    case (Inr h')
    then show ?thesis
      using Cons.IH[OF rest, of "(fst s @ [h'], case supportedFormats h' of None \<Rightarrow> snd s | Some fmts \<Rightarrow> collectFormats fmts (snd s))"] b
      by (auto simp: Let_def split: prod.splits)
  qed
qed

lemma initializeConverter_progress_bounds:
  "\<forall>p\<in>set (progressOf (snd (snd (initializeConverter lc hcs st)))). 0 \<le> progress p \<and> progress p \<le> 100"
proof (cases "initialized st \<and> allFormats st \<noteq> []")
  case True
  then show ?thesis by (simp add: initializeConverter_done)
next
  case False
  obtain s' t where run: "initLoop (length hcs) 0 hcs ([], []) = (s', t)" by fastforce
  have "\<forall>p\<in>set (progressOf t). 0 \<le> progress p \<and> progress p \<le> 100"
    using initLoop_progress_bounds[of 0 hcs "length hcs" "([], [])"] run by simp
  then show ?thesis using False run
    by (auto simp: initializeConverter_def Let_def progressOf_append split: prod.splits)
qed

lemma ensureInitialized_progress_bounds:
  "\<forall>p\<in>set (progressOf (snd (ensureInitialized lc hcs st))). 0 \<le> progress p \<and> progress p \<le> 100"
  using initializeConverter_progress_bounds[of lc hcs st]
  by (auto simp: ensureInitialized_def split: prod.splits)

lemma executeSteps_progress:
  "map progress (progressOf (snd (executeSteps n i stps cur pf))) =
     map (stepPercent n) [Suc i ..< Suc i + length (progressOf (snd (executeSteps n i stps cur pf)))] \<and>
   length (progressOf (snd (executeSteps n i stps cur pf))) \<le> length stps \<and>
   (\<not> isl (fst (executeSteps n i stps cur pf)) \<longrightarrow>
      length (progressOf (snd (executeSteps n i stps cur pf))) = length stps) \<and>
   (\<forall>p\<in>set (progressOf (snd (executeSteps n i stps cur pf))). stage p = Converting)"
proof (induction stps arbitrary: i cur pf)
  case Nil
  then show ?case by simp
next
  case (Cons step rest)
  have ev: "10 + Math_round (of_nat (i + 1) / of_nat n * 80) = stepPercent n (Suc i)"
    by (simp add: stepPercent_def)
  show ?case
  proof (cases "resolveFormats step")
    case None
    then show ?thesis using ev by (simp add: Let_def)
  next
    case (Some io)
    obtain a b where io: "io = (a, b)" by (cases io)
    show ?thesis
    proof (cases "doConvert (handler step) cur a b")
      case (Inl e)
      then show ?thesis using Some io ev by (simp add: Let_def)
    next
      case (Inr out)
      let ?rec = "executeSteps n (Suc i) rest out (pf @ [toUpperCase (format (outputFormat step))])"
      let ?m = "length (progressOf (snd ?rec))"
      have eq: "executeSteps n i (step # rest) cur pf =
          (fst ?rec,
           Progress \<lparr>stage = Converting, progress = stepPercent n (Suc i),
             message = ''Converting to '' @ toUpperCase (format (outputFormat step)) @ ''...''\<rparr> #
           DoConvertCall (h_name (handler step)) cur a b # snd ?rec)"
        using Some io Inr ev by (simp add: Let_def case_prod_beta)
      let ?ev = "\<lparr>stage = Converting, progress = stepPercent n (Suc i),
             message = ''Converting to '' @ toUpperCase (format (outputFormat step)) @ ''...''\<rparr>"
      have po: "progressOf (snd (executeSteps n i (step # rest) cur pf)) = ?ev # progressOf (snd ?rec)"
        unfolding eq by simp
      have fs: "fst (executeSteps n i (step # rest) cur pf) = fst ?rec"
        unfolding eq by simp
      have upt: "[Suc i ..< Suc i + Suc ?m] = Suc i # [Suc (Suc i) ..< Suc (Suc i) + ?m]"
      proof -
        have "[Suc i ..< Suc i + Suc ?m] = Suc i # [Suc (Suc i) ..< Suc i + Suc ?m]"
          by (rule upt_conv_Cons) simp
        moreover have "Suc i + Suc ?m = Suc (Suc i) + ?m" by simp
        ultimately show ?thesis by (simp only:)
      qed
      note ih = Cons.IH[of "Suc i" out "pf @ [toUpperCase (format (outputFormat step))]"]
      have A: "map progress (progressOf (snd ?rec)) =
                 map (stepPercent n) [Suc (Suc i) ..< Suc (Suc i) + ?m]"
        using ih by (rule conjunct1)
      have len: "length (?ev # progressOf (snd ?rec)) = Suc ?m" by simp
      have pe: "progress ?ev = stepPercent n (Suc i)" by simp
      have c1: "map progress (?ev # progressOf (snd ?rec)) =
                  map (stepPercent n) [Suc i ..< Suc i + length (?ev # progressOf (snd ?rec))]"
        unfolding len upt list.map pe A ..
      have c2: "length (?ev # progressOf (snd ?rec)) \<le> length (step # rest)"
        using ih by simp
      have c3: "\<not> isl (fst ?rec) \<longrightarrow> length (?ev # progressOf (snd ?rec)) = length (step # rest)"
        using ih by simp
      have c4: "\<forall>p\<in>set (?ev # progressOf (snd ?rec)). stage p = Converting"
        using ih by simp
      show ?thesis unfolding po fs using c1 c2 c3 c4 by (intro conjI)
    qed
  qed
qed

lemma executeSteps_order:
  "(snd (executeSteps n i stps cur pf) \<noteq> [] \<longrightarrow> isProgress (hd (snd (executeSteps n i stps cur pf)))) \<and>
   successively (\<lambda>a b. isDoConvertCall b \<longrightarrow> isProgress a) (snd (executeSteps n i stps cur pf))"
proof (induction stps arbitrary: i cur pf)
  case Nil
  then show ?case by simp
next
  case (Cons step rest)
  show ?case
  proof (cases "resolveFormats step")
    case None
    then show ?thesis by (simp add: Let_def)
  next
    case (Some io)
    obtain a b where io: "io = (a, b)" by (cases io)
    show ?thesis
    proof (cases "doConvert (handler step) cur a b")
      case (Inl e)
      then show ?thesis using Some io by (simp add: Let_def)
    next
      case (Inr out)
      let ?rec = "executeSteps n (Suc i) rest out (pf @ [toUpperCase (format (outputFormat step))])"
      obtain ev where eq: "snd (executeSteps n i (step # rest) cur pf) =
           Progress ev # DoConvertCall (h_name (handler step)) cur a b # snd ?rec"
        using Some io Inr by (simp add: Let_def case_prod_beta)
      have ih: "(snd ?rec \<noteq> [] \<longrightarrow> isProgress (hd (snd ?rec))) \<and>
            successively (\<lambda>a b. isDoConvertCall b \<longrightarrow> isProgress a) (snd ?rec)"
        by (rule Cons.IH)
      have "successively (\<lambda>a b. isDoConvertCall b \<longrightarrow> isProgress a)
              (DoConvertCall (h_name (handler step)) cur a b # snd ?rec)"
      proof (cases "snd ?rec")
        case Nil
        then show ?thesis by simp
      next
        case (Cons x xs)
        with ih have "isProgress x" by simp
        then have "\<not> isDoConvertCall x" by (cases x) simp_all
        with ih Cons show ?thesis by simp
      qed
      then show ?thesis unfolding eq by simp
    qed
  qed
qed

lemma executeSteps_bounds:
  "\<forall>p\<in>set (progressOf (snd (executeSteps (length stps) 0 stps cur pf))).
     10 \<le> progress p \<and> progress p \<le> 90"
proof
  let ?po = "progressOf (snd (executeSteps (length stps) 0 stps cur pf))"
  fix p assume "p \<in> set ?po"
  then have "progress p \<in> set (map progress ?po)" by simp
  moreover have "map progress ?po = map (stepPercent (length stps)) [Suc 0 ..< Suc 0 + length ?po]"
    using executeSteps_progress[of "length stps" 0 stps cur pf] by (rule conjunct1)
  ultimately obtain j where j: "j \<in> set [Suc 0 ..< Suc 0 + length ?po]"
      "progress p = stepPercent (length stps) j"
    by auto
  have "length ?po \<le> length stps"
    using executeSteps_progress[of "length stps" 0 stps cur pf] by blast
  moreover have "j < Suc 0 + length ?po"
    using j(1) by (simp only: set_upt atLeastLessThan_iff)
  ultimately have "j \<le> length stps" by arith
  from stepPercent_bounds[OF this] j(2) show "10 \<le> progress p \<and> progress p \<le> 90" by simp
qed

lemma convert_progress_bounds:
  assumes "convert lc hcs st inputFiles inp out = Some (st', r, t)"
  shows "\<forall>p\<in>set (progressOf t). 0 \<le> progress p \<and> progress p \<le> 100"
proof -
  let ?e = "ensureInitialized lc hcs st"
  let ?t1 = "snd ?e @ [Progress \<lparr>stage = Converting, progress = 0,
                                  message = ''Finding conversion route...''\<rparr>]"
  have b1: "\<forall>p\<in>set (progressOf ?t1). 0 \<le> progress p \<and> progress p \<le> 100"
    using ensureInitialized_progress_bounds[of lc hcs st] by (simp add: progressOf_append)
  show ?thesis
  proof (cases "mime inp = mime out")
    case True
    then have "t = ?t1" using assms by (simp add: convert_def Let_def case_prod_beta)
    with b1 show ?thesis by simp
  next
    case False
    note ne = this
    show ?thesis
    proof (cases "findConversionPath (handlers (fst ?e)) inp out 3")
      case None
      then show ?thesis using assms ne by (simp add: convert_def Let_def case_prod_beta)
    next
      case (Some r')
      show ?thesis
      proof (cases r')
        case None
        then have "t = ?t1" using assms ne Some by (simp add: convert_def Let_def case_prod_beta)
        with b1 show ?thesis by simp
      next
        case (Some p)
        let ?t2 = "?t1 @ [Progress \<lparr>stage = Converting, progress = 10,
                    message = ''Converting: '' @
                      join arrowSep (map (\<lambda>s. toUpperCase (format (outputFormat s))) (steps p))\<rparr>]"
        let ?ex = "executeSteps (length (steps p)) 0 (steps p) (loadFiles inputFiles)
                     [toUpperCase (format inp)]"
        have b2: "\<forall>p\<in>set (progressOf ?t2). 0 \<le> progress p \<and> progress p \<le> 100"
          using b1 by (simp add: progressOf_append)
        have bx: "\<forall>q\<in>set (progressOf (snd ?ex)). 0 \<le> progress q \<and> progress q \<le> 100"
          using executeSteps_bounds[of "steps p" "loadFiles inputFiles" "[toUpperCase (format inp)]"]
          by fastforce
        have fc: "findConversionPath (handlers (fst ?e)) inp out 3 = Some (Some p)"
          using \<open>findConversionPath (handlers (fst ?e)) inp out 3 = Some r'\<close> Some by simp
        have "t = ?t2 @ snd ?ex \<or>
              t = ?t2 @ snd ?ex @ [Progress \<lparr>stage = Complete, progress = 100,
                                              message = ''Conversion complete!''\<rparr>]"
          using assms ne fc
          by (auto simp: convert_def Let_def case_prod_beta split: sum.splits simp del: executeSteps.simps)
        then show ?thesis using b2 bx by (auto simp: progressOf_append)
      qed
    qed
  qed
qed
lemma executeSteps_failure:
  "fst (executeSteps n i stps cur pf) = Inl f \<Longrightarrow> \<not> success f"
proof (induction stps arbitrary: i cur pf)
  case Nil
  then show ?case by simp
next
  case (Cons step rest)
  show ?case
  proof (cases "resolveFormats step")
    case None
    then show ?thesis using Cons.prems by (auto simp: Let_def stepFailure_def)
  next
    case (Some io)
    obtain a b where io: "io = (a, b)" by (cases io)
    show ?thesis
    proof (cases "doConvert (handler step) cur a b")
      case (Inl e)
      then show ?thesis using Cons.prems Some io by (auto simp: Let_def stepFailure_def)
    next
      case (Inr out)
      then have "fst (executeSteps n (Suc i) rest out (pf @ [toUpperCase (format (outputFormat step))])) = Inl f"
        using Cons.prems Some io by (simp add: Let_def case_prod_beta)
      then show ?thesis by (rule Cons.IH)
    qed
  qed
qed

lemma convert_route_trace:
  assumes "mime inp \<noteq> mime out"
    and "findConversionPath (handlers (fst (ensureInitialized lc hcs st))) inp out 3 = Some (Some p)"
  shows "\<exists>r. convert lc hcs st inputFiles inp out =
           Some (fst (ensureInitialized lc hcs st), r,
                 snd (ensureInitialized lc hcs st) @
                 [Progress \<lparr>stage = Converting, progress = 0,
                             message = ''Finding conversion route...''\<rparr>,
                  Progress \<lparr>stage = Converting, progress = 10,
                             message = ''Converting: '' @
                               join arrowSep (map (\<lambda>s. toUpperCase (format (outputFormat s))) (steps p))\<rparr>] @
                 snd (executeSteps (length (steps p)) 0 (steps p) (loadFiles inputFiles)
                        [toUpperCase (format inp)]) @
                 (if success r
                  then [Progress \<lparr>stage = Complete, progress = 100,
                                   message = ''Conversion complete!''\<rparr>]
                  else [])) \<and>
           success r = (\<not> isl (fst (executeSteps (length (steps p)) 0 (steps p) (loadFiles inputFiles)
                        [toUpperCase (format inp)])))"
proof -
  let ?ex = "executeSteps (length (steps p)) 0 (steps p) (loadFiles inputFiles)
                        [toUpperCase (format inp)]"
  show ?thesis
  proof (cases "fst ?ex")
    case (Inl f)
    then have nf: "\<not> success f" by (rule executeSteps_failure)
    have "convert lc hcs st inputFiles inp out =
           Some (fst (ensureInitialized lc hcs st), f,
                 (snd (ensureInitialized lc hcs st) @
                 [Progress \<lparr>stage = Converting, progress = 0,
                             message = ''Finding conversion route...''\<rparr>]) @
                  [Progress \<lparr>stage = Converting, progress = 10,
                             message = ''Converting: '' @
                               join arrowSep (map (\<lambda>s. toUpperCase (format (outputFormat s))) (steps p))\<rparr>] @
                 snd ?ex)"
      unfolding convert_def Let_def using assms Inl
      by (simp add: case_prod_beta del: executeSteps.simps)
    then show ?thesis using nf Inl by (intro exI[of _ f]) simp
  next
    case (Inr res)
    let ?r = "\<lparr>success = True,
               r_message = ''Successfully converted to '' @ toUpperCase (format out),
               path = Some (snd res), files = Some (fst res)\<rparr>"
    have "convert lc hcs st inputFiles inp out =
           Some (fst (ensureInitialized lc hcs st), ?r,
                 (snd (ensureInitialized lc hcs st) @
                 [Progress \<lparr>stage = Converting, progress = 0,
                             message = ''Finding conversion route...''\<rparr>]) @
                  [Progress \<lparr>stage = Converting, progress = 10,
                             message = ''Converting: '' @
                               join arrowSep (map (\<lambda>s. toUpperCase (format (outputFormat s))) (steps p))\<rparr>] @
                 snd ?ex @ [Progress \<lparr>stage = Complete, progress = 100,
                                   message = ''Conversion complete!''\<rparr>])"
      unfolding convert_def Let_def using assms Inr
      by (simp add: case_prod_beta del: executeSteps.simps)
    then show ?thesis using Inr by (intro exI[of _ ?r]) simp
  qed
qed

section \<open>Claims about the pathfinder\<close>

text \<open>
  C9 (cycle safety). For every handler list, cyclic capability graphs included,
  \<^verbatim>\<open>findConversionPath\<close> returns: it is never the value \<open>None\<close> that stands for a search
  running forever, and the while loop returns from every state of its visited set and
  queue. The reason is the visited set: an expansion leaves the number of unvisited
  declared mime types plus the queue length unchanged, each entry it enqueues using up
  one unvisited mime type, and each iteration dequeues one entry.
\<close>

theorem findConversionPath_terminates:
  "(\<exists>r. findConversionPath hs inp out maxDepth = Some r) \<and>
   (\<exists>r. bfsLoop hs out maxDepth s = Some r) \<and>
   bfsMeasure hs (scanHandlers skipSelf cur pth hs s) = bfsMeasure hs s"
  using findConversionPath_returns bfsLoop_returns scanHandlers_bfsMeasure by blast

text \<open>
  The instance: a handler that converts JPEG and WebP into each other, so the graph has
  the cycle JPEG, WebP, JPEG; the search for a route from JPEG to HTML returns null.
\<close>

theorem findConversionPath_terminates_witness:
  "edge [exRaster] (mime exJpeg) (mime exWebp) \<and> edge [exRaster] (mime exWebp) (mime exJpeg) \<and>
   findConversionPath [exRaster] exJpeg exHtml 3 = Some None"
proof -
  have cyc: "edge [exRaster] (mime exJpeg) (mime exWebp) \<and> edge [exRaster] (mime exWebp) (mime exJpeg)"
    by code_simp
  obtain r where r: "findConversionPath [exRaster] exJpeg exHtml 3 = Some r"
    using findConversionPath_terminates[of "[exRaster]" exJpeg exHtml 3] by blast
  have "map_option (map_option (length \<circ> steps)) (findConversionPath [exRaster] exJpeg exHtml 3) = Some None"
    by code_simp
  with r have "r = None" by simp
  with r cyc show ?thesis by simp
qed

text \<open>
  C1 (shortest path), as amended. Let the source and destination mime types differ, let
  the capability graph over ready handlers have a conversion path of \<open>k\<close> steps from the
  one to the other and none of fewer steps. Then \<^verbatim>\<open>findConversionPath\<close> with
  \<open>maxHops \<ge> k\<close> returns a path of exactly \<open>k\<close> steps. With \<open>maxHops < k\<close> it returns
  null, unless \<open>k = 1\<close>: a one-step route is found by the direct check, which comes before
  any test of the bound, and is returned whatever \<open>maxHops\<close> is.
\<close>

theorem findConversionPath_shortest:
  assumes distinct: "mime inp \<noteq> mime out"
    and path: "hasPath hs k (mime inp) (mime out)"
    and minimal: "\<forall>j<k. \<not> hasPath hs j (mime inp) (mime out)"
  shows "(int k \<le> maxHops \<or> k = 1 \<longrightarrow>
            (\<exists>p. findConversionPath hs inp out maxHops = Some (Some p) \<and> length (steps p) = k)) \<and>
         (maxHops < int k \<and> k \<noteq> 1 \<longrightarrow> findConversionPath hs inp out maxHops = Some None)"
proof (intro conjI impI)
  assume bound: "int k \<le> maxHops \<or> k = 1"
  from findConversionPath_complete[OF distinct path minimal bound] obtain p where
    p: "findConversionPath hs inp out maxHops = Some (Some p)" "length (steps p) \<le> k" by blast
  from findConversionPath_sound[OF p(1)] minimal have "\<not> length (steps p) < k" by blast
  with p show "\<exists>p. findConversionPath hs inp out maxHops = Some (Some p) \<and> length (steps p) = k"
    by auto
next
  assume small: "maxHops < int k \<and> k \<noteq> 1"
  obtain r where r: "findConversionPath hs inp out maxHops = Some r"
    using findConversionPath_returns by blast
  show "findConversionPath hs inp out maxHops = Some None"
  proof (cases r)
    case None
    with r show ?thesis by simp
  next
    case (Some p)
    with r findConversionPath_sound[of hs inp out maxHops p]
    have "hasPath hs (length (steps p)) (mime inp) (mime out) \<and>
      (length (steps p) = 1 \<or> int (length (steps p)) \<le> maxHops)" by auto
    then have hp: "hasPath hs (length (steps p)) (mime inp) (mime out)"
      and len: "length (steps p) = 1 \<or> int (length (steps p)) \<le> maxHops" by auto
    have ge: "k \<le> length (steps p)" using hp minimal by (meson not_le_imp_less)
    have "k \<noteq> 0" using path distinct by (cases k) auto
    with ge len small have False by auto
    then show ?thesis ..
  qed
qed

lemma ex_html_png_distinct: "mime exHtml \<noteq> mime exPng"
  by code_simp

lemma ex_html_png_path: "hasPath [exH1, exH2] 2 (mime exHtml) (mime exPng)"
  by code_simp

lemma ex_html_png_minimal: "\<forall>j<2. \<not> hasPath [exH1, exH2] j (mime exHtml) (mime exPng)"
proof (intro allI impI)
  fix j :: nat assume "j < 2"
  then consider "j = 0" | "j = Suc 0" by (cases j) auto
  moreover have "\<not> hasPath [exH1, exH2] 0 (mime exHtml) (mime exPng)" by code_simp
  moreover have "\<not> hasPath [exH1, exH2] (Suc 0) (mime exHtml) (mime exPng)" by code_simp
  ultimately show "\<not> hasPath [exH1, exH2] j (mime exHtml) (mime exPng)" by cases blast+
qed

text \<open>
  The instance: HTML to SVG by one handler, SVG to PNG by another, so \<open>k = 2\<close>; the bound
  3 gives a route of two steps and the bound 1 gives null.
\<close>

theorem findConversionPath_shortest_witness:
  "mime exHtml \<noteq> mime exPng \<and> hasPath [exH1, exH2] 2 (mime exHtml) (mime exPng) \<and>
   (\<exists>p. findConversionPath [exH1, exH2] exHtml exPng 3 = Some (Some p) \<and> length (steps p) = 2) \<and>
   findConversionPath [exH1, exH2] exHtml exPng 1 = Some None"
proof -
  have a: "\<exists>p. findConversionPath [exH1, exH2] exHtml exPng 3 = Some (Some p) \<and> length (steps p) = 2"
    using findConversionPath_shortest[OF ex_html_png_distinct ex_html_png_path ex_html_png_minimal, of 3]
    by simp
  have b: "findConversionPath [exH1, exH2] exHtml exPng 1 = Some None"
    using findConversionPath_shortest[OF ex_html_png_distinct ex_html_png_path ex_html_png_minimal, of 1]
    by simp
  show ?thesis using a b ex_html_png_distinct ex_html_png_path by blast
qed

text \<open>
  The claim as first stated fails for the bound 0: SVG to PNG is one step (\<open>k = 1\<close>), there
  is no path of 0 steps, \<open>0 < k\<close>, and yet the one-step route is returned.
\<close>

theorem findConversionPath_bound_counterexample:
  "mime exSvgIn \<noteq> mime exPng \<and> hasPath [exH2] 1 (mime exSvgIn) (mime exPng) \<and>
   \<not> hasPath [exH2] 0 (mime exSvgIn) (mime exPng) \<and> (0::int) < int 1 \<and>
   findConversionPath [exH2] exSvgIn exPng 0 \<noteq> Some None \<and>
   map_option (map_option (length \<circ> steps)) (findConversionPath [exH2] exSvgIn exPng 0) =
     Some (Some 1)"
proof -
  have r: "map_option (map_option (length \<circ> steps)) (findConversionPath [exH2] exSvgIn exPng 0) =
      Some (Some 1)"
    by code_simp
  then have n: "findConversionPath [exH2] exSvgIn exPng 0 \<noteq> Some None"
    by auto
  have a: "mime exSvgIn \<noteq> mime exPng" by code_simp
  have b: "hasPath [exH2] 1 (mime exSvgIn) (mime exPng)" by code_simp
  have c: "\<not> hasPath [exH2] 0 (mime exSvgIn) (mime exPng)" by code_simp
  have d: "(0::int) < int 1" by simp
  from a b c d n r show ?thesis by (intro conjI)
qed
section \<open>Claims about the registry and the catalog\<close>

text \<open>
  C4 (dedup invariant). After \<^verbatim>\<open>initializeConverter\<close> the catalog has no two descriptors
  with the same (mime, format) pair, provided that held of a catalog the call found
  already built and returned as it was. When the call builds the catalog, the registered
  handlers are the instances whose \<^verbatim>\<open>init\<close> succeeded, in registration order, and for
  every pair the catalog's entry is the first declaration of that pair among them: the
  first registered handler wins, and by uniqueness there is exactly one such entry.
\<close>

theorem catalog_dedup:
  assumes "initialized st \<and> allFormats st \<noteq> [] \<longrightarrow> catalogUnique (allFormats st)"
  shows "catalogUnique (allFormats (fst (initializeConverter lc hcs st))) \<and>
         (\<not> (initialized st \<and> allFormats st \<noteq> []) \<longrightarrow>
            handlers (fst (initializeConverter lc hcs st)) = initializedInstances hcs \<and>
            (\<forall>k. find (\<lambda>f. formatKey f = k) (allFormats (fst (initializeConverter lc hcs st))) =
                 find (\<lambda>f. formatKey f = k) (declaredFormats (initializedInstances hcs))))"
proof (cases "initialized st \<and> allFormats st \<noteq> []")
  case True
  with assms show ?thesis by (simp add: initializeConverter_done)
next
  case False
  let ?m = "mergeCatalog [] (initializedInstances hcs)"
  have u: "catalogUnique ?m" by (rule mergeCatalog_unique) (simp add: catalogUnique_def)
  then have d: "distinct (map formatKey ?m)" by (simp add: catalogUnique_def)
  have "catalogUnique (sortBy (compareFormats lc) ?m)"
    using d by (simp add: catalogUnique_def distinct_map_sortBy)
  moreover have "\<forall>k. find (\<lambda>f. formatKey f = k) (sortBy (compareFormats lc) ?m) =
                 find (\<lambda>f. formatKey f = k) (declaredFormats (initializedInstances hcs))"
    using find_sortBy_unique[OF d] mergeCatalog_first[of _ "[]" "initializedInstances hcs"] by simp
  ultimately show ?thesis using False by (simp add: initializeConverter_fresh(1))
qed

text \<open>
  The instance: two handlers both declare (image/png, png), under different names and
  categories; the catalog is the single entry of the first.
\<close>

theorem catalog_dedup_witness:
  "catalogUnique (allFormats (fst (initializeConverter codeUnitCompare
       [exClass ''first'' [exPng], exClass ''second'' [exPngOther]] initialState))) \<and>
   formatKey exPng = formatKey exPngOther \<and> exPng \<noteq> exPngOther \<and>
   allFormats (fst (initializeConverter codeUnitCompare
       [exClass ''first'' [exPng], exClass ''second'' [exPngOther]] initialState)) = [exPng] \<and>
   find (\<lambda>f. formatKey f = formatKey exPngOther) (allFormats (fst (initializeConverter codeUnitCompare
       [exClass ''first'' [exPng], exClass ''second'' [exPngOther]] initialState))) = Some exPng"
proof -
  let ?hcs = "[exClass ''first'' [exPng], exClass ''second'' [exPngOther]]"
  have fresh: "initialized initialState \<and> allFormats initialState \<noteq> [] \<longrightarrow> catalogUnique (allFormats initialState)"
    by (simp add: initialState_def)
  have nf: "\<not> (initialized initialState \<and> allFormats initialState \<noteq> [])"
    by (simp add: initialState_def)
  note inst = catalog_dedup[OF fresh, of codeUnitCompare ?hcs]
  have a: "catalogUnique (allFormats (fst (initializeConverter codeUnitCompare ?hcs initialState)))"
    using inst by blast
  have "find (\<lambda>f. formatKey f = formatKey exPngOther) (allFormats (fst (initializeConverter codeUnitCompare ?hcs initialState)))
      = find (\<lambda>f. formatKey f = formatKey exPngOther) (declaredFormats (initializedInstances ?hcs))"
    using inst nf by blast
  also have "\<dots> = Some exPng" by code_simp
  finally have b: "find (\<lambda>f. formatKey f = formatKey exPngOther) (allFormats (fst (initializeConverter codeUnitCompare ?hcs initialState))) = Some exPng" .
  have c: "formatKey exPng = formatKey exPngOther" by code_simp
  have d: "exPng \<noteq> exPngOther" by code_simp
  have e: "allFormats (fst (initializeConverter codeUnitCompare ?hcs initialState)) = [exPng]" by code_simp
  show ?thesis using a b c d e by blast
qed

text \<open>
  C5 (idempotent initialize), as amended. Once a run of \<^verbatim>\<open>initializeConverter\<close> has
  completed and left a non-empty catalog, every later call, with whatever handler
  classes, returns that catalog with no effect at all: no handler \<^verbatim>\<open>init\<close>, no progress
  event, the state unchanged.
\<close>

theorem initialize_idempotent:
  assumes "initializeConverter lc hcs st = (st', catalog, t)" "allFormats st' \<noteq> []"
  shows "initializeConverter lc hcs' st' = (st', allFormats st', []) \<and> catalog = allFormats st'"
proof -
  have "initialized st'" using initializeConverter_initialized[of lc hcs st] assms(1) by simp
  moreover have "catalog = allFormats st'"
    using initializeConverter_returns_catalog[of lc hcs st] assms(1) by simp
  ultimately show ?thesis using assms(2) by (simp add: initializeConverter_done)
qed

theorem initialize_idempotent_witness:
  "allFormats (fst (initializeConverter codeUnitCompare [exClass ''raster'' [exJpeg, exWebp]] initialState)) \<noteq> [] \<and>
   initializeConverter codeUnitCompare [exClass ''raster'' [exJpeg, exWebp]]
     (fst (initializeConverter codeUnitCompare [exClass ''raster'' [exJpeg, exWebp]] initialState)) =
   (fst (initializeConverter codeUnitCompare [exClass ''raster'' [exJpeg, exWebp]] initialState),
    allFormats (fst (initializeConverter codeUnitCompare [exClass ''raster'' [exJpeg, exWebp]] initialState)), [])"
proof -
  let ?r = "initializeConverter codeUnitCompare [exClass ''raster'' [exJpeg, exWebp]] initialState"
  have ne: "allFormats (fst ?r) \<noteq> []"
  proof -
    have "length (allFormats (fst ?r)) = 2" by code_simp
    then show ?thesis by auto
  qed
  have eq: "?r = (fst ?r, fst (snd ?r), snd (snd ?r))" by simp
  from initialize_idempotent[OF eq ne, of "[exClass ''raster'' [exJpeg, exWebp]]"] ne
  show ?thesis by blast
qed

text \<open>
  The claim as first stated fails when the completed run left the catalog empty: the
  guard is \<^verbatim>\<open>initialized && allFormats.length > 0\<close>. With one handler that initialises
  without formats, the first run completes and sets \<^verbatim>\<open>initialized\<close>, and the second call
  invokes the handler's \<^verbatim>\<open>init\<close> again.
\<close>

theorem initialize_rerun_counterexample:
  "initialized (fst (initializeConverter codeUnitCompare [exEmptyClass] initialState)) \<and>
   initCallsOf (snd (snd (initializeConverter codeUnitCompare [exEmptyClass] initialState))) = [''empty''] \<and>
   initCallsOf (snd (snd (initializeConverter codeUnitCompare [exEmptyClass]
      (fst (initializeConverter codeUnitCompare [exEmptyClass] initialState))))) = [''empty'']"
  by code_simp

text \<open>
  C8 (a failing \<^verbatim>\<open>init\<close> is absorbed). Let the \<^verbatim>\<open>init\<close> of one handler class throw.
  \<^verbatim>\<open>initializeConverter\<close> still returns, and its state and returned catalog are those of
  the same call without that class. When the call builds the catalog, \<^verbatim>\<open>init\<close> is invoked
  on every class, the ones after the failing one included; the registered handlers are
  the successfully initialised instances of the other classes; every catalog entry is
  declared by one of them; and every step of every route \<^verbatim>\<open>findConversionPath\<close> returns
  uses one of them.
\<close>

theorem failed_init_excluded:
  assumes "init hc (construct hc) = Inl e"
  shows "fst (initializeConverter lc (pre @ hc # post) st) = fst (initializeConverter lc (pre @ post) st) \<and>
         fst (snd (initializeConverter lc (pre @ hc # post) st)) =
           fst (snd (initializeConverter lc (pre @ post) st)) \<and>
         (\<not> (initialized st \<and> allFormats st \<noteq> []) \<longrightarrow>
            initCallsOf (snd (snd (initializeConverter lc (pre @ hc # post) st))) =
              map (\<lambda>c. h_name (construct c)) (pre @ hc # post) \<and>
            handlers (fst (initializeConverter lc (pre @ hc # post) st)) =
              initializedInstances (pre @ post) \<and>
            set (allFormats (fst (initializeConverter lc (pre @ hc # post) st))) \<subseteq>
              set (declaredFormats (initializedInstances (pre @ post))) \<and>
            (\<forall>inp out maxDepth p.
               findConversionPath (handlers (fst (initializeConverter lc (pre @ hc # post) st)))
                 inp out maxDepth = Some (Some p) \<longrightarrow>
               handler ` set (steps p) \<subseteq> set (initializedInstances (pre @ post))))"
proof (cases "initialized st \<and> allFormats st \<noteq> []")
  case True
  then show ?thesis by (simp add: initializeConverter_done)
next
  case False
  have drop: "initializedInstances (pre @ hc # post) = initializedInstances (pre @ post)"
    using assms by (rule initializedInstances_drop_failed)
  have st: "fst (initializeConverter lc (pre @ hc # post) st) = fst (initializeConverter lc (pre @ post) st)"
    using False drop by (simp add: initializeConverter_fresh(1))
  have ret: "fst (snd (initializeConverter lc (pre @ hc # post) st)) =
           fst (snd (initializeConverter lc (pre @ post) st))"
    using False drop by (simp add: initializeConverter_fresh(2))
  have calls: "initCallsOf (snd (snd (initializeConverter lc (pre @ hc # post) st))) =
              map (\<lambda>c. h_name (construct c)) (pre @ hc # post)"
    using False by (rule initializeConverter_fresh(3))
  have hs: "handlers (fst (initializeConverter lc (pre @ hc # post) st)) = initializedInstances (pre @ post)"
    using False drop by (simp add: initializeConverter_fresh(1))
  have cat: "set (allFormats (fst (initializeConverter lc (pre @ hc # post) st))) \<subseteq>
              set (declaredFormats (initializedInstances (pre @ post)))"
    using False drop mergeCatalog_subset[of "[]" "initializedInstances (pre @ post)"]
    by (simp add: initializeConverter_fresh(1) set_sortBy)
  have route: "\<forall>inp out maxDepth p.
               findConversionPath (handlers (fst (initializeConverter lc (pre @ hc # post) st)))
                 inp out maxDepth = Some (Some p) \<longrightarrow>
               handler ` set (steps p) \<subseteq> set (initializedInstances (pre @ post))"
    unfolding hs using findConversionPath_handlers by blast
  from calls hs cat route have rest: "\<not> (initialized st \<and> allFormats st \<noteq> []) \<longrightarrow>
            initCallsOf (snd (snd (initializeConverter lc (pre @ hc # post) st))) =
              map (\<lambda>c. h_name (construct c)) (pre @ hc # post) \<and>
            handlers (fst (initializeConverter lc (pre @ hc # post) st)) =
              initializedInstances (pre @ post) \<and>
            set (allFormats (fst (initializeConverter lc (pre @ hc # post) st))) \<subseteq>
              set (declaredFormats (initializedInstances (pre @ post))) \<and>
            (\<forall>inp out maxDepth p.
               findConversionPath (handlers (fst (initializeConverter lc (pre @ hc # post) st)))
                 inp out maxDepth = Some (Some p) \<longrightarrow>
               handler ` set (steps p) \<subseteq> set (initializedInstances (pre @ post)))"
    by (intro impI conjI)
  from st ret rest show ?thesis by (intro conjI)
qed

theorem failed_init_excluded_witness:
  "init (exFailingClass ''bad'' [exMp3]) (construct (exFailingClass ''bad'' [exMp3])) = Inl (Error ''init failed'') \<and>
   fst (initializeConverter codeUnitCompare
          ([exClass ''raster'' [exJpeg, exWebp]] @ exFailingClass ''bad'' [exMp3] # [exClass ''png'' [exPng]])
          initialState) =
   fst (initializeConverter codeUnitCompare
          ([exClass ''raster'' [exJpeg, exWebp]] @ [exClass ''png'' [exPng]]) initialState) \<and>
   allFormats (fst (initializeConverter codeUnitCompare
          ([exClass ''raster'' [exJpeg, exWebp]] @ exFailingClass ''bad'' [exMp3] # [exClass ''png'' [exPng]])
          initialState)) = [exJpeg, exPng, exWebp] \<and>
   initCallsOf (snd (snd (initializeConverter codeUnitCompare
          ([exClass ''raster'' [exJpeg, exWebp]] @ exFailingClass ''bad'' [exMp3] # [exClass ''png'' [exPng]])
          initialState))) = [''raster'', ''bad'', ''png'']"
proof -
  have f: "init (exFailingClass ''bad'' [exMp3]) (construct (exFailingClass ''bad'' [exMp3])) = Inl (Error ''init failed'')"
    by (simp add: exFailingClass_def)
  have a: "fst (initializeConverter codeUnitCompare
          ([exClass ''raster'' [exJpeg, exWebp]] @ exFailingClass ''bad'' [exMp3] # [exClass ''png'' [exPng]])
          initialState) =
   fst (initializeConverter codeUnitCompare
          ([exClass ''raster'' [exJpeg, exWebp]] @ [exClass ''png'' [exPng]]) initialState)"
    using failed_init_excluded[OF f, of codeUnitCompare "[exClass ''raster'' [exJpeg, exWebp]]" "[exClass ''png'' [exPng]]" initialState]
    by (rule conjunct1)
  have b: "allFormats (fst (initializeConverter codeUnitCompare
          ([exClass ''raster'' [exJpeg, exWebp]] @ exFailingClass ''bad'' [exMp3] # [exClass ''png'' [exPng]])
          initialState)) = [exJpeg, exPng, exWebp]"
    by code_simp
  have c: "initCallsOf (snd (snd (initializeConverter codeUnitCompare
          ([exClass ''raster'' [exJpeg, exWebp]] @ exFailingClass ''bad'' [exMp3] # [exClass ''png'' [exPng]])
          initialState))) = [''raster'', ''bad'', ''png'']"
    by code_simp
  from f a b c show ?thesis by (intro conjI)
qed

text \<open>
  C10 (the catalog is sorted). Let \<^verbatim>\<open>localeCompare\<close> be a consistent comparator. After
  \<^verbatim>\<open>initializeConverter\<close> the catalog is ordered by category, in the order image, video,
  audio, document, archive, other, and by display name inside a category, provided that
  held of a catalog the call found already built. The call returns this catalog and
  \<^verbatim>\<open>getFormats\<close> returns it. \<^verbatim>\<open>findFormatByMime\<close> is a first-match lookup in it: it
  finds nothing exactly when no catalog entry has the normalised mime type, and otherwise
  it returns the entry of that mime type at the least position of the sorted catalog,
  which comes, in the catalog's order, no later than any other entry of that mime type.
\<close>

theorem catalog_sorted:
  assumes "consistentCompare lc"
    and "initialized st \<and> allFormats st \<noteq> [] \<longrightarrow> sorted_wrt (catalogLe lc) (allFormats st)"
  shows "sorted_wrt (catalogLe lc) (allFormats (fst (initializeConverter lc hcs st))) \<and>
         fst (snd (initializeConverter lc hcs st)) = allFormats (fst (initializeConverter lc hcs st)) \<and>
         getFormats (fst (initializeConverter lc hcs st)) = allFormats (fst (initializeConverter lc hcs st)) \<and>
         (\<forall>m f g. findFormatByMime (fst (initializeConverter lc hcs st)) m = Some f \<and>
                  g \<in> set (allFormats (fst (initializeConverter lc hcs st))) \<and>
                  mime g = normalizeMimeType m \<longrightarrow> catalogLe lc f g) \<and>
         (\<forall>m. (findFormatByMime (fst (initializeConverter lc hcs st)) m = None) =
                (\<forall>g\<in>set (allFormats (fst (initializeConverter lc hcs st))).
                   mime g \<noteq> normalizeMimeType m)) \<and>
         (\<forall>m f. findFormatByMime (fst (initializeConverter lc hcs st)) m = Some f \<longrightarrow>
                (\<exists>i<length (allFormats (fst (initializeConverter lc hcs st))).
                   allFormats (fst (initializeConverter lc hcs st)) ! i = f \<and>
                   mime f = normalizeMimeType m \<and>
                   (\<forall>j<i. mime (allFormats (fst (initializeConverter lc hcs st)) ! j) \<noteq>
                            normalizeMimeType m)))"
proof -
  let ?st = "fst (initializeConverter lc hcs st)"
  have srt: "sorted_wrt (catalogLe lc) (allFormats ?st)"
  proof (cases "initialized st \<and> allFormats st \<noteq> []")
    case True
    with assms(2) show ?thesis by (simp add: initializeConverter_done)
  next
    case False
    then show ?thesis using sorted_catalog[OF assms(1)] by (simp add: initializeConverter_fresh(1))
  qed
  have refl: "\<And>x. catalogLe lc x x" using catalogLe_total[OF assms(1)] by blast
  have first: "\<forall>m f g. findFormatByMime ?st m = Some f \<and> g \<in> set (allFormats ?st) \<and>
                  mime g = normalizeMimeType m \<longrightarrow> catalogLe lc f g"
  proof (intro allI impI)
    fix m f g
    assume h: "findFormatByMime ?st m = Some f \<and> g \<in> set (allFormats ?st) \<and> mime g = normalizeMimeType m"
    then have "find (\<lambda>f. mime f = normalizeMimeType m) (allFormats ?st) = Some f"
      by (simp add: findFormatByMime_def)
    from find_sorted_first[OF srt refl this, of g] h show "catalogLe lc f g" by simp
  qed
  have none: "\<forall>m. (findFormatByMime ?st m = None) =
                (\<forall>g\<in>set (allFormats ?st). mime g \<noteq> normalizeMimeType m)"
    by (auto simp: findFormatByMime_def find_None_iff)
  have some: "\<forall>m f. findFormatByMime ?st m = Some f \<longrightarrow>
                (\<exists>i<length (allFormats ?st).
                   allFormats ?st ! i = f \<and> mime f = normalizeMimeType m \<and>
                   (\<forall>j<i. mime (allFormats ?st ! j) \<noteq> normalizeMimeType m))"
  proof (intro allI impI)
    fix m f assume "findFormatByMime ?st m = Some f"
    then have "find (\<lambda>f. mime f = normalizeMimeType m) (allFormats ?st) = Some f"
      by (simp add: findFormatByMime_def)
    then obtain i where "i < length (allFormats ?st)" "mime (allFormats ?st ! i) = normalizeMimeType m"
      "f = allFormats ?st ! i" "\<forall>j<i. mime (allFormats ?st ! j) \<noteq> normalizeMimeType m"
      unfolding find_Some_iff by blast
    then show "\<exists>i<length (allFormats ?st).
                   allFormats ?st ! i = f \<and> mime f = normalizeMimeType m \<and>
                   (\<forall>j<i. mime (allFormats ?st ! j) \<noteq> normalizeMimeType m)"
      by blast
  qed
  have ret: "fst (snd (initializeConverter lc hcs st)) = allFormats ?st"
    by (rule initializeConverter_returns_catalog)
  have gf: "getFormats ?st = allFormats ?st" by (simp add: getFormats_def)
  from srt ret gf first none some show ?thesis by (intro conjI)
qed

text \<open>
  The instance: the first registered handler declares HTML and ``Zeta PNG'', the second
  ``Animated PNG'' and JPEG. The catalog is in sorted order, not registration order; the
  lookup of image/png finds the second handler's entry, the lookup of text/html the
  HTML entry, and the lookup of a mime type no handler declares finds nothing.
\<close>

theorem catalog_sorted_witness:
  "consistentCompare codeUnitCompare \<and>
   sorted_wrt (catalogLe codeUnitCompare) (allFormats (fst (initializeConverter codeUnitCompare
      [exClass ''docs'' [exHtml, exZpng], exClass ''raster'' [exApng, exJpeg]] initialState))) \<and>
   allFormats (fst (initializeConverter codeUnitCompare
      [exClass ''docs'' [exHtml, exZpng], exClass ''raster'' [exApng, exJpeg]] initialState))
     = [exApng, exJpeg, exZpng, exHtml] \<and>
   findFormatByMime (fst (initializeConverter codeUnitCompare
      [exClass ''docs'' [exHtml, exZpng], exClass ''raster'' [exApng, exJpeg]] initialState)) ''image/png''
     = Some exApng \<and>
   findFormatByMime (fst (initializeConverter codeUnitCompare
      [exClass ''docs'' [exHtml, exZpng], exClass ''raster'' [exApng, exJpeg]] initialState)) ''text/html''
     = Some exHtml \<and>
   findFormatByMime (fst (initializeConverter codeUnitCompare
      [exClass ''docs'' [exHtml, exZpng], exClass ''raster'' [exApng, exJpeg]] initialState)) ''audio/x-wav''
     = None"
proof -
  let ?hcs = "[exClass ''docs'' [exHtml, exZpng], exClass ''raster'' [exApng, exJpeg]]"
  have fresh: "initialized initialState \<and> allFormats initialState \<noteq> [] \<longrightarrow>
      sorted_wrt (catalogLe codeUnitCompare) (allFormats initialState)"
    by (simp add: initialState_def)
  have a: "sorted_wrt (catalogLe codeUnitCompare) (allFormats (fst (initializeConverter codeUnitCompare ?hcs initialState)))"
    using catalog_sorted[OF codeUnitCompare_consistent fresh, of ?hcs] by (rule conjunct1)
  have b: "allFormats (fst (initializeConverter codeUnitCompare ?hcs initialState)) = [exApng, exJpeg, exZpng, exHtml]"
    by code_simp
  have c: "findFormatByMime (fst (initializeConverter codeUnitCompare ?hcs initialState)) ''image/png'' = Some exApng"
    by code_simp
  have d: "findFormatByMime (fst (initializeConverter codeUnitCompare ?hcs initialState)) ''text/html'' = Some exHtml"
    by code_simp
  have e: "findFormatByMime (fst (initializeConverter codeUnitCompare ?hcs initialState)) ''audio/x-wav'' = None"
    by code_simp
  from codeUnitCompare_consistent a b c d e show ?thesis by (intro conjI)
qed

section \<open>Claims about the executor\<close>

text \<open>
  C3 (identity shortcut). When the source and destination mime types are equal,
  \<^verbatim>\<open>convert\<close> succeeds with the input files as they were read (same names, same bytes)
  and the one label of the source format code in upper case. The result is written out
  in full: it depends on no handler and on no route, and the effects are those of the
  initialisation, if it was still due, and one progress event; no \<^verbatim>\<open>doConvert\<close> is
  called.
\<close>

theorem identity_shortcut:
  assumes "mime inp = mime out"
  shows "convert lc hcs st inputFiles inp out =
           Some (fst (ensureInitialized lc hcs st),
                 \<lparr>success = True,
                  r_message = ''Files are already in the target format.'',
                  path = Some [toUpperCase (format inp)],
                  files = Some (loadFiles inputFiles)\<rparr>,
                 snd (ensureInitialized lc hcs st) @
                 [Progress \<lparr>stage = Converting, progress = 0,
                             message = ''Finding conversion route...''\<rparr>]) \<and>
         map bytes (loadFiles inputFiles) = map file_bytes inputFiles \<and>
         map fd_name (loadFiles inputFiles) = map file_name inputFiles \<and>
         (\<forall>e \<in> set (snd (ensureInitialized lc hcs st) @
                     [Progress \<lparr>stage = Converting, progress = 0,
                                 message = ''Finding conversion route...''\<rparr>]).
            \<not> isDoConvertCall e)"
proof -
  have a: "convert lc hcs st inputFiles inp out =
           Some (fst (ensureInitialized lc hcs st),
                 \<lparr>success = True,
                  r_message = ''Files are already in the target format.'',
                  path = Some [toUpperCase (format inp)],
                  files = Some (loadFiles inputFiles)\<rparr>,
                 snd (ensureInitialized lc hcs st) @
                 [Progress \<lparr>stage = Converting, progress = 0,
                             message = ''Finding conversion route...''\<rparr>])"
    using assms by (simp add: convert_def Let_def split: prod.splits)
  have b: "map bytes (loadFiles inputFiles) = map file_bytes inputFiles"
    by (simp add: loadFiles_def comp_def)
  have c: "map fd_name (loadFiles inputFiles) = map file_name inputFiles"
    by (simp add: loadFiles_def comp_def)
  have d: "\<forall>e \<in> set (snd (ensureInitialized lc hcs st) @
                     [Progress \<lparr>stage = Converting, progress = 0,
                                 message = ''Finding conversion route...''\<rparr>]).
            \<not> isDoConvertCall e"
    using isDoConvertCall_ensureInitialized[of lc hcs st] by simp
  from a b c d show ?thesis by (intro conjI)
qed

theorem identity_shortcut_witness:
  "mime exSvgIn = mime exSvgOut \<and>
   map_option (\<lambda>(s, r, t). (success r, path r, files r, filter isDoConvertCall t))
     (convert codeUnitCompare [exClass ''H1'' [exHtml, exSvgOut], exClass ''H2'' [exSvgIn, exPng]]
        initialState [exFile] exSvgIn exSvgOut) =
   Some (True, Some [''SVG''], Some [\<lparr>fd_name = ''page'', bytes = [60, 104, 49, 62]\<rparr>], [])"
proof -
  have m: "mime exSvgIn = mime exSvgOut" by code_simp
  have "map_option (\<lambda>(s, r, t). (success r, path r, files r, filter isDoConvertCall t))
     (convert codeUnitCompare [exClass ''H1'' [exHtml, exSvgOut], exClass ''H2'' [exSvgIn, exPng]]
        initialState [exFile] exSvgIn exSvgOut) =
     (Some (True, Some [toUpperCase (format exSvgIn)], Some (loadFiles [exFile]), filter isDoConvertCall (snd (ensureInitialized codeUnitCompare [exClass ''H1'' [exHtml, exSvgOut], exClass ''H2'' [exSvgIn, exPng]]
        initialState) @
                 [Progress \<lparr>stage = Converting, progress = 0,
                             message = ''Finding conversion route...''\<rparr>])))"
    using identity_shortcut[OF m, of codeUnitCompare "[exClass ''H1'' [exHtml, exSvgOut], exClass ''H2'' [exSvgIn, exPng]]" initialState "[exFile]"]
    by simp
  also have "\<dots> = Some (True, Some [''SVG''], Some [\<lparr>fd_name = ''page'', bytes = [60, 104, 49, 62]\<rparr>], [])"
    by code_simp
  finally show ?thesis using m by simp
qed

text \<open>
  C6 (no route). When the mime types differ and the capability graph of the registered
  handlers has no conversion path of 1, 2 or 3 steps (3 is the bound \<^verbatim>\<open>convert\<close> searches
  with), \<^verbatim>\<open>convert\<close> returns a result with \<open>success = False\<close>, no path, no files, and
  the message that no conversion path was found.
\<close>

theorem no_route_result:
  assumes "mime inp \<noteq> mime out"
    and "\<forall>j\<in>{1, 2, 3}. \<not> hasPath (handlers (fst (ensureInitialized lc hcs st))) j (mime inp) (mime out)"
  shows "convert lc hcs st inputFiles inp out =
           Some (fst (ensureInitialized lc hcs st),
                 \<lparr>success = False,
                  r_message = ''No conversion path found from '' @ toUpperCase (format inp) @
                    '' to '' @ toUpperCase (format out) @ ''. Try a different output format.'',
                  path = None,
                  files = None\<rparr>,
                 snd (ensureInitialized lc hcs st) @
                 [Progress \<lparr>stage = Converting, progress = 0,
                             message = ''Finding conversion route...''\<rparr>])"
proof -
  let ?hs = "handlers (fst (ensureInitialized lc hcs st))"
  obtain r where r: "findConversionPath ?hs inp out 3 = Some r"
    using findConversionPath_returns by blast
  have "r = None"
  proof (cases r)
    case None
    then show ?thesis .
  next
    case (Some p)
    with r findConversionPath_sound[of ?hs inp out 3 p]
    have hp: "hasPath ?hs (length (steps p)) (mime inp) (mime out)"
      and len: "length (steps p) = 1 \<or> int (length (steps p)) \<le> 3" by auto
    have nz: "length (steps p) \<noteq> 0" using hp assms(1) by auto
    have le: "length (steps p) \<le> 3" using len by auto
    have "length (steps p) = 1 \<or> length (steps p) = 2 \<or> length (steps p) = 3"
      using nz le by arith
    then have "length (steps p) \<in> {1, 2, 3}" by simp
    with assms(2) hp show ?thesis by blast
  qed
  with r show ?thesis using assms(1)
    by (simp add: convert_def Let_def case_prod_beta)
qed

text \<open>The instance: handlers for HTML, SVG and PNG only; PDF to MP3 has no route.\<close>

theorem no_route_result_witness:
  "mime exPdf \<noteq> mime exMp3 \<and>
   map_option (\<lambda>(s, r, t). (success r, path r, r_message r))
     (convert codeUnitCompare [exClass ''H1'' [exHtml, exSvgOut], exClass ''H2'' [exSvgIn, exPng]]
        initialState [exFile] exPdf exMp3) =
   Some (False, None, ''No conversion path found from PDF to MP3. Try a different output format.'')"
proof -
  let ?hcs = "[exClass ''H1'' [exHtml, exSvgOut], exClass ''H2'' [exSvgIn, exPng]]"
  have m: "mime exPdf \<noteq> mime exMp3" by code_simp
  have n: "\<forall>j\<in>{1, 2, 3}. \<not> hasPath (handlers (fst (ensureInitialized codeUnitCompare ?hcs initialState))) j (mime exPdf) (mime exMp3)"
    by code_simp
  have "map_option (\<lambda>(s, r, t). (success r, path r, r_message r))
     (convert codeUnitCompare ?hcs initialState [exFile] exPdf exMp3) =
     Some (False, None, ''No conversion path found from '' @ toUpperCase (format exPdf) @
                    '' to '' @ toUpperCase (format exMp3) @ ''. Try a different output format.'')"
    using no_route_result[OF m n, of "[exFile]"] by simp
  also have "\<dots> = Some (False, None, ''No conversion path found from PDF to MP3. Try a different output format.'')"
    by code_simp
  finally show ?thesis using m by simp
qed

text \<open>
  C2 (partial failure). When the route has two steps, the first handler's conversion
  returns and the second handler's throws \<open>e\<close>, \<^verbatim>\<open>convert\<close> returns \<open>success = False\<close>,
  the two labels of the source format and of the first step's output format, no files,
  and the message ``Conversion failed at step 2: '' followed by the message of
  \<open>e\<close>.
\<close>

theorem partial_failure:
  assumes "mime inp \<noteq> mime out"
    and "findConversionPath (handlers (fst (ensureInitialized lc hcs st))) inp out 3 = Some (Some p)"
    and "steps p = [s1, s2]"
    and "resolveFormats s1 = Some (i1, o1)"
    and "doConvert (handler s1) (loadFiles inputFiles) i1 o1 = Inr mid"
    and "resolveFormats s2 = Some (i2, o2)"
    and "doConvert (handler s2) mid i2 o2 = Inl e"
  shows "\<exists>t. convert lc hcs st inputFiles inp out =
           Some (fst (ensureInitialized lc hcs st),
                 \<lparr>success = False,
                  r_message = ''Conversion failed at step 2: '' @ exn_message e,
                  path = Some [toUpperCase (format inp), toUpperCase (format (outputFormat s1))],
                  files = None\<rparr>,
                 t)"
proof -
  let ?failure = "\<lparr>success = False,
           r_message = ''Conversion failed at step 2: '' @ exn_message e,
           path = Some [toUpperCase (format inp), toUpperCase (format (outputFormat s1))],
           files = None\<rparr>"
  have ex: "fst (executeSteps (length [s1, s2]) 0 [s1, s2] (loadFiles inputFiles)
                   [toUpperCase (format inp)]) = Inl ?failure"
    using assms(4-7) by (simp add: Let_def stepFailure_def showNat_2)
  then obtain t where t: "executeSteps (length (steps p)) 0 (steps p) (loadFiles inputFiles)
                   [toUpperCase (format inp)] = (Inl ?failure, t)"
    unfolding assms(3) by (metis prod.collapse)
  have "convert lc hcs st inputFiles inp out =
          Some (fst (ensureInitialized lc hcs st), ?failure,
                (snd (ensureInitialized lc hcs st) @
                 [Progress \<lparr>stage = Converting, progress = 0,
                             message = ''Finding conversion route...''\<rparr>]) @
                 [Progress \<lparr>stage = Converting, progress = 10,
                    message = ''Converting: '' @
                      join arrowSep (map (\<lambda>s. toUpperCase (format (outputFormat s))) (steps p))\<rparr>] @ t)"
    unfolding convert_def Let_def using assms(1,2) t
    by (simp add: case_prod_beta del: executeSteps.simps)
  then show ?thesis by blast
qed

text \<open>
  The instance: HTML to SVG succeeds, SVG to PNG throws \<^verbatim>\<open>Error('boom')\<close>; the labels
  are HTML and SVG, without PNG.
\<close>

theorem partial_failure_witness:
  "mime exHtml \<noteq> mime exPng \<and>
   map_option (\<lambda>(s, r, t). (success r, path r, r_message r, files r))
     (convert codeUnitCompare [exClass ''H1'' [exHtml, exSvgOut], exBrokenClass ''H2'' [exSvgIn, exPng]]
        initialState [exFile] exHtml exPng) =
   Some (False, Some [''HTML'', ''SVG''], ''Conversion failed at step 2: boom'', None)"
proof -
  let ?hcs = "[exClass ''H1'' [exHtml, exSvgOut], exBrokenClass ''H2'' [exSvgIn, exPng]]"
  let ?hs = "handlers (fst (ensureInitialized codeUnitCompare ?hcs initialState))"
  let ?p = "the (the (findConversionPath ?hs exHtml exPng 3))"
  have m: "mime exHtml \<noteq> mime exPng" by code_simp
  have "map_option (map_option (length \<circ> steps)) (findConversionPath ?hs exHtml exPng 3) = Some (Some 2)"
    by code_simp
  then obtain p where p: "findConversionPath ?hs exHtml exPng 3 = Some (Some p)" "length (steps p) = 2"
    by (auto simp: map_option_case split: option.splits)
  then have fp: "findConversionPath ?hs exHtml exPng 3 = Some (Some ?p)" by simp
  have "length (steps ?p) = 2" using p by simp
  then have st: "steps ?p = [steps ?p ! 0, steps ?p ! 1]"
    by (cases "steps ?p"; cases "tl (steps ?p)") auto
  have r1: "resolveFormats (steps ?p ! 0) = Some (exHtml, exSvgOut)" by code_simp
  have c1: "doConvert (handler (steps ?p ! 0)) (loadFiles [exFile]) exHtml exSvgOut
              = Inr [\<lparr>fd_name = ''page.svg'', bytes = [60, 104, 49, 62]\<rparr>]" by code_simp
  have r2: "resolveFormats (steps ?p ! 1) = Some (exSvgIn, exPng)" by code_simp
  have c2: "doConvert (handler (steps ?p ! 1)) [\<lparr>fd_name = ''page.svg'', bytes = [60, 104, 49, 62]\<rparr>] exSvgIn exPng
              = Inl (Error ''boom'')" by code_simp
  from partial_failure[OF m fp st r1 c1 r2 c2]
  have "map_option (\<lambda>(s, r, t). (success r, path r, r_message r, files r))
     (convert codeUnitCompare ?hcs initialState [exFile] exHtml exPng) =
     Some (False, Some [toUpperCase (format exHtml), toUpperCase (format (outputFormat (steps ?p ! 0)))],
           ''Conversion failed at step 2: '' @ exn_message (Error ''boom''), None)"
    by auto
  also have "\<dots> = Some (False, Some [''HTML'', ''SVG''], ''Conversion failed at step 2: boom'', None)"
    by code_simp
  finally show ?thesis using m by simp
qed

text \<open>
  C7 (progress), as amended. Every percentage \<^verbatim>\<open>convert\<close> emits, those of a pending
  initialisation included, lies between 0 and 100. When the mime types differ and a
  route of \<open>n\<close> steps is found, the effects of \<^verbatim>\<open>convert\<close> are those of the
  initialisation, if it was still due, the progress events 0 and 10 of the routing, the
  effects of the steps, and the completion event if all steps succeeded. Among the
  effects of the steps there is one progress event for each step that is started,
  directly before that step's \<^verbatim>\<open>doConvert\<close> call, of stage converting and of percentage
  \<open>10 + round (80 * j / n)\<close> for the \<open>j\<close>-th step counted from 1: routing accounts
  for the first 10, and the steps share the range from 10 to 90 evenly. All steps are
  started when the conversion succeeds. \<^verbatim>\<open>Math.round\<close> is taken on exact rationals.
\<close>

theorem progress_interpolation:
  "(\<forall>st' r t. convert lc hcs st inputFiles inp out = Some (st', r, t) \<longrightarrow>
      (\<forall>q\<in>set (progressOf t). 0 \<le> progress q \<and> progress q \<le> 100)) \<and>
   (mime inp \<noteq> mime out \<and>
    findConversionPath (handlers (fst (ensureInitialized lc hcs st))) inp out 3 = Some (Some p) \<longrightarrow>
      (\<exists>r tx.
         convert lc hcs st inputFiles inp out =
           Some (fst (ensureInitialized lc hcs st), r,
                 snd (ensureInitialized lc hcs st) @
                 [Progress \<lparr>stage = Converting, progress = 0,
                             message = ''Finding conversion route...''\<rparr>,
                  Progress \<lparr>stage = Converting, progress = 10,
                             message = ''Converting: '' @
                               join arrowSep (map (\<lambda>s. toUpperCase (format (outputFormat s))) (steps p))\<rparr>] @
                 tx @
                 (if success r
                  then [Progress \<lparr>stage = Complete, progress = 100,
                                   message = ''Conversion complete!''\<rparr>]
                  else [])) \<and>
         map progress (progressOf tx) =
           map (stepPercent (length (steps p))) [1 ..< Suc (length (progressOf tx))] \<and>
         length (progressOf tx) \<le> length (steps p) \<and>
         (success r \<longrightarrow> length (progressOf tx) = length (steps p)) \<and>
         (\<forall>q\<in>set (progressOf tx). stage q = Converting \<and> 10 \<le> progress q \<and> progress q \<le> 90) \<and>
         (tx \<noteq> [] \<longrightarrow> isProgress (hd tx)) \<and>
         successively (\<lambda>a b. isDoConvertCall b \<longrightarrow> isProgress a) tx))"
proof (intro conjI impI)
  show "\<forall>st' r t. convert lc hcs st inputFiles inp out = Some (st', r, t) \<longrightarrow>
      (\<forall>q\<in>set (progressOf t). 0 \<le> progress q \<and> progress q \<le> 100)"
    using convert_progress_bounds by blast
next
  assume h: "mime inp \<noteq> mime out \<and>
    findConversionPath (handlers (fst (ensureInitialized lc hcs st))) inp out 3 = Some (Some p)"
  let ?tx = "snd (executeSteps (length (steps p)) 0 (steps p) (loadFiles inputFiles)
                        [toUpperCase (format inp)])"
  let ?fx = "fst (executeSteps (length (steps p)) 0 (steps p) (loadFiles inputFiles)
                        [toUpperCase (format inp)])"
  from h have h1: "mime inp \<noteq> mime out"
    and h2: "findConversionPath (handlers (fst (ensureInitialized lc hcs st))) inp out 3 = Some (Some p)"
    by simp_all
  from convert_route_trace[OF h1 h2, of inputFiles] obtain r where
    c0: "convert lc hcs st inputFiles inp out =
           Some (fst (ensureInitialized lc hcs st), r,
                 snd (ensureInitialized lc hcs st) @
                 [Progress \<lparr>stage = Converting, progress = 0,
                             message = ''Finding conversion route...''\<rparr>,
                  Progress \<lparr>stage = Converting, progress = 10,
                             message = ''Converting: '' @
                               join arrowSep (map (\<lambda>s. toUpperCase (format (outputFormat s))) (steps p))\<rparr>] @
                 ?tx @
                 (if success r
                  then [Progress \<lparr>stage = Complete, progress = 100,
                                   message = ''Conversion complete!''\<rparr>]
                  else []))"
    and sr: "success r = (\<not> isl ?fx)"
    by blast
  note pr = executeSteps_progress[of "length (steps p)" 0 "steps p" "loadFiles inputFiles"
              "[toUpperCase (format inp)]"]
  note ord = executeSteps_order[of "length (steps p)" 0 "steps p" "loadFiles inputFiles"
              "[toUpperCase (format inp)]"]
  have c1: "map progress (progressOf ?tx) =
           map (stepPercent (length (steps p))) [1 ..< Suc (length (progressOf ?tx))]"
    using pr by simp
  have c2: "length (progressOf ?tx) \<le> length (steps p)"
    using pr by blast
  have c3: "success r \<longrightarrow> length (progressOf ?tx) = length (steps p)"
    using pr sr by blast
  have c4: "\<forall>q\<in>set (progressOf ?tx). stage q = Converting \<and> 10 \<le> progress q \<and> progress q \<le> 90"
    using pr executeSteps_bounds[of "steps p" "loadFiles inputFiles" "[toUpperCase (format inp)]"]
    by blast
  have c5: "?tx \<noteq> [] \<longrightarrow> isProgress (hd ?tx)"
    using ord by blast
  have c6: "successively (\<lambda>a b. isDoConvertCall b \<longrightarrow> isProgress a) ?tx"
    using ord by blast
  from c0 c1 c2 c3 c4 c5 c6
  show "\<exists>r tx.
         convert lc hcs st inputFiles inp out =
           Some (fst (ensureInitialized lc hcs st), r,
                 snd (ensureInitialized lc hcs st) @
                 [Progress \<lparr>stage = Converting, progress = 0,
                             message = ''Finding conversion route...''\<rparr>,
                  Progress \<lparr>stage = Converting, progress = 10,
                             message = ''Converting: '' @
                               join arrowSep (map (\<lambda>s. toUpperCase (format (outputFormat s))) (steps p))\<rparr>] @
                 tx @
                 (if success r
                  then [Progress \<lparr>stage = Complete, progress = 100,
                                   message = ''Conversion complete!''\<rparr>]
                  else [])) \<and>
         map progress (progressOf tx) =
           map (stepPercent (length (steps p))) [1 ..< Suc (length (progressOf tx))] \<and>
         length (progressOf tx) \<le> length (steps p) \<and>
         (success r \<longrightarrow> length (progressOf tx) = length (steps p)) \<and>
         (\<forall>q\<in>set (progressOf tx). stage q = Converting \<and> 10 \<le> progress q \<and> progress q \<le> 90) \<and>
         (tx \<noteq> [] \<longrightarrow> isProgress (hd tx)) \<and>
         successively (\<lambda>a b. isDoConvertCall b \<longrightarrow> isProgress a) tx"
    by (intro exI[of _ r] exI[of _ ?tx] conjI)
qed

text \<open>
  The instance: HTML to MP3 by way of SVG and PNG, three steps, from the initial state
  with three handler classes. The percentages are 0, 17, 50, 83, 100 for the
  initialisation, 0 and 10 for the routing, 37, 63, 90 before the steps and 100 at
  completion.
\<close>

theorem progress_interpolation_witness:
  "mime exHtml \<noteq> mime exMp3 \<and>
   (\<exists>r tx.
      map_option (fst \<circ> snd)
        (convert codeUnitCompare
           [exClass ''H1'' [exHtml, exSvgOut], exClass ''H2'' [exSvgIn, exPng], exClass ''H3'' [exPng, exMp3]]
           initialState [exFile] exHtml exMp3) = Some r \<and>
      success r \<and>
      progressOf (snd (snd (the (convert codeUnitCompare
           [exClass ''H1'' [exHtml, exSvgOut], exClass ''H2'' [exSvgIn, exPng], exClass ''H3'' [exPng, exMp3]]
           initialState [exFile] exHtml exMp3)))) =
        progressOf (snd (ensureInitialized codeUnitCompare
           [exClass ''H1'' [exHtml, exSvgOut], exClass ''H2'' [exSvgIn, exPng], exClass ''H3'' [exPng, exMp3]]
           initialState)) @
        [\<lparr>stage = Converting, progress = 0, message = ''Finding conversion route...''\<rparr>,
         \<lparr>stage = Converting, progress = 10, message = ''Converting: SVG '' @ [CHR 0xE2, CHR 0x86, CHR 0x92] @ '' PNG '' @ [CHR 0xE2, CHR 0x86, CHR 0x92] @ '' MP3''\<rparr>] @
        progressOf tx @
        [\<lparr>stage = Complete, progress = 100, message = ''Conversion complete!''\<rparr>] \<and>
      map progress (progressOf tx) = [37, 63, 90]) \<and>
   map_option (map progress \<circ> progressOf \<circ> snd \<circ> snd)
     (convert codeUnitCompare
        [exClass ''H1'' [exHtml, exSvgOut], exClass ''H2'' [exSvgIn, exPng], exClass ''H3'' [exPng, exMp3]]
        initialState [exFile] exHtml exMp3) = Some [0, 17, 50, 83, 100, 0, 10, 37, 63, 90, 100]"
proof -
  let ?hcs = "[exClass ''H1'' [exHtml, exSvgOut], exClass ''H2'' [exSvgIn, exPng], exClass ''H3'' [exPng, exMp3]]"
  let ?e = "ensureInitialized codeUnitCompare ?hcs initialState"
  let ?hs = "handlers (fst ?e)"
  let ?p = "the (the (findConversionPath ?hs exHtml exMp3 3))"
  let ?c = "convert codeUnitCompare ?hcs initialState [exFile] exHtml exMp3"
  have m: "mime exHtml \<noteq> mime exMp3" by code_simp
  have "map_option (map_option (length \<circ> steps)) (findConversionPath ?hs exHtml exMp3 3) = Some (Some 3)"
    by code_simp
  then obtain p where p: "findConversionPath ?hs exHtml exMp3 3 = Some (Some p)" "length (steps p) = 3"
    by (auto simp: map_option_case split: option.splits)
  then have fp: "findConversionPath ?hs exHtml exMp3 3 = Some (Some ?p)" by simp
  have l3: "length (steps ?p) = 3" using p by simp
  have msg: "''Converting: '' @ join arrowSep (map (\<lambda>s. toUpperCase (format (outputFormat s))) (steps ?p))
      = ''Converting: SVG '' @ [CHR 0xE2, CHR 0x86, CHR 0x92] @ '' PNG '' @ [CHR 0xE2, CHR 0x86, CHR 0x92] @ '' MP3''"
    by code_simp
  from progress_interpolation[of codeUnitCompare ?hcs initialState "[exFile]" exHtml exMp3 ?p] m fp
  obtain r tx where
    c0: "?c = Some (fst ?e, r,
                 snd ?e @
                 [Progress \<lparr>stage = Converting, progress = 0,
                             message = ''Finding conversion route...''\<rparr>,
                  Progress \<lparr>stage = Converting, progress = 10,
                             message = ''Converting: '' @
                               join arrowSep (map (\<lambda>s. toUpperCase (format (outputFormat s))) (steps ?p))\<rparr>] @
                 tx @
                 (if success r
                  then [Progress \<lparr>stage = Complete, progress = 100,
                                   message = ''Conversion complete!''\<rparr>]
                  else []))"
    and c1: "map progress (progressOf tx) =
           map (stepPercent (length (steps ?p))) [1 ..< Suc (length (progressOf tx))]"
    and c3: "success r \<longrightarrow> length (progressOf tx) = length (steps ?p)"
    by blast
  have "map_option (success \<circ> fst \<circ> snd) ?c = Some True" by code_simp
  with c0 have sr: "success r" by simp
  with c3 l3 have ltx: "length (progressOf tx) = 3" by simp
  have "map (stepPercent 3) [1 ..< Suc 3] = [37, 63, 90]" by code_simp
  with c1 l3 ltx have pc: "map progress (progressOf tx) = [37, 63, 90]" by (simp only:)
  have r1: "map_option (fst \<circ> snd) ?c = Some r" using c0 by simp
  have tr: "progressOf (snd (snd (the ?c))) =
        progressOf (snd ?e) @
        [\<lparr>stage = Converting, progress = 0, message = ''Finding conversion route...''\<rparr>,
         \<lparr>stage = Converting, progress = 10, message = ''Converting: SVG '' @ [CHR 0xE2, CHR 0x86, CHR 0x92] @ '' PNG '' @ [CHR 0xE2, CHR 0x86, CHR 0x92] @ '' MP3''\<rparr>] @
        progressOf tx @
        [\<lparr>stage = Complete, progress = 100, message = ''Conversion complete!''\<rparr>]"
    unfolding c0 msg[symmetric] using sr by (simp add: progressOf_append)
  have all: "map_option (map progress \<circ> progressOf \<circ> snd \<circ> snd) ?c =
      Some [0, 17, 50, 83, 100, 0, 10, 37, 63, 90, 100]"
    by code_simp
  from r1 sr tr pc have ex: "\<exists>r tx.
      map_option (fst \<circ> snd) ?c = Some r \<and> success r \<and>
      progressOf (snd (snd (the ?c))) =
        progressOf (snd ?e) @
        [\<lparr>stage = Converting, progress = 0, message = ''Finding conversion route...''\<rparr>,
         \<lparr>stage = Converting, progress = 10, message = ''Converting: SVG '' @ [CHR 0xE2, CHR 0x86, CHR 0x92] @ '' PNG '' @ [CHR 0xE2, CHR 0x86, CHR 0x92] @ '' MP3''\<rparr>] @
        progressOf tx @
        [\<lparr>stage = Complete, progress = 100, message = ''Conversion complete!''\<rparr>] \<and>
      map progress (progressOf tx) = [37, 63, 90]"
    by (intro exI[of _ r] exI[of _ tx] conjI)
  from m ex all show ?thesis by (intro conjI)
qed

text \<open>
  The formula of the claim as first stated, \<open>10 + 90 * (j / n)\<close>, gives 100 before the
  only step of a one-step route; the code emits 90, ten points away.
\<close>

theorem progress_formula_counterexample:
  "map_option (map progress \<circ> progressOf \<circ> snd \<circ> snd)
     (convert codeUnitCompare [exClass ''H2'' [exSvgIn, exPng]] initialState [exFile] exSvgIn exPng)
     = Some [0, 50, 100, 0, 10, 90, 100] \<and>
   map progress (progressOf (snd (executeSteps 1 0 [exStep2] (loadFiles [exFile]) [''SVG'']))) = [90] \<and>
   \<bar>90 - ((10::rat) + 90 * (1 / 1))\<bar> = 10"
  by code_simp

end
